theory Spec2Isabelle
  imports Main "HOL-Library.Sublist" "HOL-Library.AList"
begin

section \<open>Strings of the host language\<close>

text \<open>
  A string of the extension is modelled as a \<^typ>\<open>string\<close>: the list of its code units,
  for texts whose code units are below 256 (Latin-1).  The string methods the source calls
  are written out for that range.
\<close>

type_synonym path = string

text \<open>\<^verbatim>\<open>String.prototype.toLowerCase\<close>: A-Z and the upper-case letters of Latin-1
  (U+00C0 to U+00DE without the multiplication sign U+00D7) move up by 32.\<close>

definition lower_char :: "char \<Rightarrow> char" where
  "lower_char c =
     (let n = (of_char c :: nat)
      in if (65 \<le> n \<and> n \<le> 90) \<or> (192 \<le> n \<and> n \<le> 222 \<and> n \<noteq> 215)
         then char_of (n + 32) else c)"

definition toLowerCase :: "string \<Rightarrow> string" where
  "toLowerCase s = map lower_char s"

text \<open>\<^verbatim>\<open>s.includes(t)\<close>: \<open>t\<close> occurs in \<open>s\<close> at some position, scanned from the left.\<close>

fun includes_str :: "string \<Rightarrow> string \<Rightarrow> bool" where
  "includes_str [] t = (t = [])"
| "includes_str (c # s) t = (prefix t (c # s) \<or> includes_str s t)"

text \<open>The characters matched by \<^verbatim>\<open>\s\<close> in a regular expression and removed by
  \<^verbatim>\<open>trim()\<close>: tab, line feed, vertical tab, form feed, carriage return, space and
  the no-break space.\<close>

definition is_space :: "char \<Rightarrow> bool" where
  "is_space c = (of_char c \<in> {9, 10, 11, 12, 13, 32, 160 :: nat})"

text \<open>The characters excluded by the class \<^verbatim>\<open>[^\n\r]\<close>.\<close>

definition is_newline :: "char \<Rightarrow> bool" where
  "is_newline c = (of_char c \<in> {10, 13 :: nat})"

definition trim :: "string \<Rightarrow> string" where
  "trim s = rev (dropWhile is_space (rev (dropWhile is_space s)))"

text \<open>All the suffixes of a string, longest first: the positions at which an unanchored
  regular expression tries to match, in the order it tries them.\<close>

fun tails :: "string \<Rightarrow> string list" where
  "tails [] = [[]]"
| "tails (c # s) = (c # s) # tails s"

text \<open>\<open>strip_prefix p s\<close> is what follows \<open>p\<close> when \<open>s\<close> starts with \<open>p\<close>.\<close>

fun strip_prefix :: "string \<Rightarrow> string \<Rightarrow> string option" where
  "strip_prefix [] s = Some s"
| "strip_prefix (p # ps) [] = None"
| "strip_prefix (p # ps) (c # s) = (if p = c then strip_prefix ps s else None)"

section \<open>The encrypted-content heuristic (sopsHandler.ts, isSopsEncrypted)\<close>

text \<open>\<^verbatim>\<open>/"enc":/.test(lower)\<close>: the pattern is a literal, so the test is an occurrence.\<close>

definition re_quoted_enc :: "string \<Rightarrow> bool" where
  "re_quoted_enc s = includes_str s ([CHR 0x22] @ ''enc'' @ [CHR 0x22] @ '':'')"

text \<open>\<^verbatim>\<open>/sops:\n/.test(lower)\<close>: the pattern has no anchor and no flag; it is the
  literal \<^verbatim>\<open>sops:\<close> followed by a line feed (written \<open>\<newline>\<close> in a string).\<close>

definition re_sops_block :: "string \<Rightarrow> bool" where
  "re_sops_block s = includes_str s ''sops:\<newline>''"

text \<open>\<^verbatim>\<open>/"sops":\s*{/.test(lower)\<close>: at some position the literal \<^verbatim>\<open>"sops":\<close>, then
  white space, then an opening brace.  The brace is no white space, so the greedy
  \<^verbatim>\<open>\s*\<close> can only succeed having taken the whole run.\<close>

definition re_quoted_sops_at :: "string \<Rightarrow> bool" where
  "re_quoted_sops_at t =
     (case strip_prefix ([CHR 0x22] @ ''sops'' @ [CHR 0x22] @ '':'') t of
        None \<Rightarrow> False
      | Some r \<Rightarrow> (case dropWhile is_space r of [] \<Rightarrow> False | c # _ \<Rightarrow> c = CHR ''{''))"

definition re_quoted_sops :: "string \<Rightarrow> bool" where
  "re_quoted_sops s = list_ex re_quoted_sops_at (tails s)"

definition isSopsEncrypted :: "string \<Rightarrow> bool" where
  "isSopsEncrypted content =
     (let lower = toLowerCase content
      in if \<not> includes_str lower ''sops'' then False
         else let hasEncryptedValues = (includes_str lower ''enc['' \<or> re_quoted_enc lower);
                  hasSopsMetadata = (re_sops_block lower \<or> re_quoted_sops lower)
              in hasEncryptedValues \<or> hasSopsMetadata)"

section \<open>Paths (the POSIX flavour of the \<^verbatim>\<open>path\<close> module)\<close>

text \<open>The last portion of a path; separators at the end are ignored.\<close>

definition last_portion :: "path \<Rightarrow> string" where
  "last_portion p =
     rev (takeWhile (\<lambda>c. c \<noteq> CHR ''/'') (dropWhile (\<lambda>c. c = CHR ''/'') (rev p)))"

text \<open>
  \<^verbatim>\<open>extname(path)\<close>: from the last dot of the last portion to its end; empty when there
  is no dot, when the last dot is the first character of the portion, and for the
  portion \<^verbatim>\<open>..\<close>.
\<close>

definition extname :: "path \<Rightarrow> string" where
  "extname p =
     (let b = last_portion p;
          after = takeWhile (\<lambda>c. c \<noteq> CHR ''.'') (rev b)
      in if CHR ''.'' \<notin> set b then []
         else if Suc (length after) = length b then []
         else if b = ''..'' then []
         else CHR ''.'' # rev after)"

text \<open>
  \<^verbatim>\<open>basename(path, suffix)\<close>: the last portion, without the suffix when it ends with it
  and is more than it; the empty suffix stands for the call with one argument.
\<close>

definition basename :: "path \<Rightarrow> string \<Rightarrow> string" where
  "basename p ext =
     (let b = last_portion p
      in if ext \<noteq> [] \<and> length ext \<le> length p
         then (if ext = p then []
               else if suffix ext b \<and> ext \<noteq> b then take (length b - length ext) b
               else b)
         else b)"

fun split_on :: "char \<Rightarrow> string \<Rightarrow> string list" where
  "split_on sep [] = [[]]"
| "split_on sep (c # s) =
     (if c = sep then [] # split_on sep s
      else (case split_on sep s of [] \<Rightarrow> [[c]] | x # xs \<Rightarrow> (c # x) # xs))"

fun join_with :: "string \<Rightarrow> string list \<Rightarrow> string" where
  "join_with sep [] = []"
| "join_with sep [x] = x"
| "join_with sep (x # y # ys) = x @ sep @ join_with sep (y # ys)"

text \<open>
  \<^verbatim>\<open>normalizeString\<close>, one segment at a time; \<open>out\<close> holds the segments kept so far,
  the last one first.  Empty segments and \<^verbatim>\<open>.\<close> are dropped; \<^verbatim>\<open>..\<close> removes the
  segment before it, unless there is none or it is \<^verbatim>\<open>..\<close> itself, where it is kept
  when the path is relative (\<open>allowAboveRoot\<close>) and dropped otherwise.
\<close>

fun normalize_segments :: "bool \<Rightarrow> string list \<Rightarrow> string list \<Rightarrow> string list" where
  "normalize_segments allowAboveRoot out [] = rev out"
| "normalize_segments allowAboveRoot out (seg # segs) =
     (if seg = [] \<or> seg = ''.'' then normalize_segments allowAboveRoot out segs
      else if seg = ''..'' then
        (case out of
           [] \<Rightarrow> normalize_segments allowAboveRoot (if allowAboveRoot then [''..''] else []) segs
         | lastSegment # below \<Rightarrow>
             if lastSegment = ''..''
             then normalize_segments allowAboveRoot
                    (if allowAboveRoot then ''..'' # out else out) segs
             else normalize_segments allowAboveRoot below segs)
      else normalize_segments allowAboveRoot (seg # out) segs)"

definition normalizeString :: "string \<Rightarrow> bool \<Rightarrow> string" where
  "normalizeString p allowAboveRoot =
     join_with ''/'' (normalize_segments allowAboveRoot [] (split_on (CHR ''/'') p))"

definition normalize :: "path \<Rightarrow> path" where
  "normalize p =
     (if p = [] then ''.''
      else let isAbsolute = (hd p = CHR ''/'');
               trailingSeparator = (last p = CHR ''/'');
               q = normalizeString p (\<not> isAbsolute)
           in if q = [] then (if isAbsolute then ''/'' else if trailingSeparator then ''./'' else ''.'')
              else let q' = (if trailingSeparator then q @ ''/'' else q)
                   in if isAbsolute then ''/'' @ q' else q')"

text \<open>\<^verbatim>\<open>join(...args)\<close>: the non-empty arguments, put together with separators and
  normalized.\<close>

definition join :: "string list \<Rightarrow> path" where
  "join args =
     (let parts = filter (\<lambda>a. a \<noteq> []) args
      in if parts = [] then ''.'' else normalize (join_with ''/'' parts))"

text \<open>
  \<^verbatim>\<open>dirname(path)\<close>: the separators at the end are passed over, then the last
  portion; what stands before the separator found there is the result.  The first
  character is not looked at: without such a separator the result is the root for an
  absolute path and \<^verbatim>\<open>.\<close> otherwise.
\<close>

definition dirname :: "path \<Rightarrow> path" where
  "dirname p =
     (if p = [] then ''.''
      else let hasRoot = (hd p = CHR ''/'');
               before = dropWhile (\<lambda>c. c \<noteq> CHR ''/'')
                          (dropWhile (\<lambda>c. c = CHR ''/'') (rev (tl p)));
               end = length before
           in if before = [] then (if hasRoot then ''/'' else ''.'')
              else if hasRoot \<and> end = 1 then ''//''
              else take end p)"

section \<open>The file system and the external tool\<close>

text \<open>
  The calls of \<^verbatim>\<open>fs/promises\<close> act on a store of files.  A call fails when the file
  it reads, removes or renames is missing, or when a path it creates, overwrites or
  removes is one on which the system refuses the operation (\<open>denied\<close>); a failed call
  leaves the store as it was.
\<close>

datatype error =
    ENOENT path
  | EACCES path
  | ToolError string
  | CriticalError path error

record filesystem =
  files :: "path \<rightharpoonup> string"
  denied :: "path set"

definition copyFile :: "path \<Rightarrow> path \<Rightarrow> filesystem \<Rightarrow> error + filesystem" where
  "copyFile src dst fs =
     (case files fs src of
        None \<Rightarrow> Inl (ENOENT src)
      | Some c \<Rightarrow> if dst \<in> denied fs then Inl (EACCES dst)
                 else Inr (fs\<lparr>files := (files fs)(dst \<mapsto> c)\<rparr>))"

definition writeFile :: "path \<Rightarrow> string \<Rightarrow> filesystem \<Rightarrow> error + filesystem" where
  "writeFile p c fs =
     (if p \<in> denied fs then Inl (EACCES p)
      else Inr (fs\<lparr>files := (files fs)(p \<mapsto> c)\<rparr>))"

definition unlink :: "path \<Rightarrow> filesystem \<Rightarrow> error + filesystem" where
  "unlink p fs =
     (if files fs p = None then Inl (ENOENT p)
      else if p \<in> denied fs then Inl (EACCES p)
      else Inr (fs\<lparr>files := (files fs)(p := None)\<rparr>))"

text \<open>\<^verbatim>\<open>fs.rename(oldPath, newPath)\<close> replaces the file at the new path.\<close>

definition rename :: "path \<Rightarrow> path \<Rightarrow> filesystem \<Rightarrow> error + filesystem" where
  "rename src dst fs =
     (case files fs src of
        None \<Rightarrow> Inl (ENOENT src)
      | Some c \<Rightarrow> if src \<in> denied fs then Inl (EACCES src)
                 else if dst \<in> denied fs then Inl (EACCES dst)
                 else Inr (fs\<lparr>files := ((files fs)(src := None))(dst \<mapsto> c)\<rparr>))"

definition readFile :: "path \<Rightarrow> filesystem \<Rightarrow> error + string" where
  "readFile p fs = (case files fs p of None \<Rightarrow> Inl (ENOENT p) | Some c \<Rightarrow> Inr c)"

text \<open>
  The \<^verbatim>\<open>sops\<close> command is outside the repository, and so is the shell in which
  \<^verbatim>\<open>child_process.exec\<close> runs it.  A run is given the command line, the working
  directory and the store; which file the command reaches is up to the shell and the
  tool.  The run either fails with a diagnostic, the text of
  \<^verbatim>\<open>stderr || err.message\<close>, or succeeds: \<^verbatim>\<open>sops -d\<close> with the plaintext on
  standard output, having written no file; \<^verbatim>\<open>sops --encrypt --in-place\<close> with the
  store it leaves.  A failed run leaves the store as it was.
\<close>

record sops_tool =
  sops_decrypt :: "string \<Rightarrow> path \<Rightarrow> filesystem \<Rightarrow> string + string"
  sops_encrypt :: "string \<Rightarrow> path \<Rightarrow> filesystem \<Rightarrow> string + filesystem"

text \<open>The two calls of \<^verbatim>\<open>exec\<close>: the command line has the path between double
  quotes, and the working directory is the directory of the path.\<close>

definition exec_decrypt :: "sops_tool \<Rightarrow> path \<Rightarrow> filesystem \<Rightarrow> error + string" where
  "exec_decrypt tool originalPath fs =
     (let fileDir = dirname originalPath;
          cmd = ''sops -d '' @ [CHR 0x22] @ originalPath @ [CHR 0x22]
      in case sops_decrypt tool cmd fileDir fs of
           Inl stderr \<Rightarrow> Inl (ToolError stderr)
         | Inr stdout \<Rightarrow> Inr stdout)"

definition exec_encrypt_in_place :: "sops_tool \<Rightarrow> path \<Rightarrow> filesystem \<Rightarrow> error + filesystem" where
  "exec_encrypt_in_place tool originalPath fs =
     (let fileDir = dirname originalPath;
          cmd = ''sops --encrypt --in-place '' @ [CHR 0x22] @ originalPath @ [CHR 0x22]
      in case sops_encrypt tool cmd fileDir fs of
           Inl stderr \<Rightarrow> Inl (ToolError stderr)
         | Inr fs' \<Rightarrow> Inr fs')"

section \<open>Encrypt and replace (sopsHandler.ts, encryptAndReplaceOriginal)\<close>

text \<open>
  The body of the \<^verbatim>\<open>try\<close> block: the four steps in order.  The result is the error
  thrown by the first step that fails, if any, with the store as that step found it.
\<close>

definition encrypt_steps ::
  "sops_tool \<Rightarrow> string \<Rightarrow> path \<Rightarrow> path \<Rightarrow> filesystem \<Rightarrow> error option \<times> filesystem" where
  "encrypt_steps tool content originalPath tempBackupPath fs =
     (case copyFile originalPath tempBackupPath fs of
        Inl e \<Rightarrow> (Some e, fs)
      | Inr fs1 \<Rightarrow>
     (case writeFile originalPath content fs1 of
        Inl e \<Rightarrow> (Some e, fs1)
      | Inr fs2 \<Rightarrow>
     (case exec_encrypt_in_place tool originalPath fs2 of
        Inl e \<Rightarrow> (Some e, fs2)
      | Inr fs3 \<Rightarrow>
     (case unlink tempBackupPath fs3 of
        Inl e \<Rightarrow> (Some e, fs3)
      | Inr fs4 \<Rightarrow> (None, fs4)))))"

text \<open>
  The whole function, with the \<^verbatim>\<open>catch\<close> block: any error of the steps leads to
  the rename of the backup over the original; when the rename fails the critical error is
  thrown, otherwise the error of the steps is thrown again.  \<open>uuid\<close> is the value of
  \<^verbatim>\<open>randomUUID()\<close>.
\<close>

definition encryptAndReplaceOriginal ::
  "sops_tool \<Rightarrow> string \<Rightarrow> string \<Rightarrow> path \<Rightarrow> filesystem \<Rightarrow> (error + unit) \<times> filesystem" where
  "encryptAndReplaceOriginal tool uuid content originalPath fs =
     (let tempBackupPath = originalPath @ ''.sops-backup.'' @ uuid
      in case encrypt_steps tool content originalPath tempBackupPath fs of
           (None, fs') \<Rightarrow> (Inr (), fs')
         | (Some error, fs') \<Rightarrow>
             (case rename tempBackupPath originalPath fs' of
                Inl restoreError \<Rightarrow> (Inl (CriticalError originalPath restoreError), fs')
              | Inr fs'' \<Rightarrow> (Inl error, fs'')))"

section \<open>Decrypt to a working file (sopsHandler.ts, decryptToTempFile)\<close>

text \<open>
  The end of the pattern, \<^verbatim>\<open>\s*([^\n\r]+)\<close>, on what follows the assignment sign.
  The greedy \<^verbatim>\<open>\s*\<close> first takes the whole run of white space and gives characters
  back one at a time; at each length the group takes the longest run without line
  terminator, and the first length at which the group is not empty wins.
\<close>

definition re_suffix_value :: "string \<Rightarrow> string option" where
  "re_suffix_value r =
     map_option (\<lambda>k. takeWhile (\<lambda>c. \<not> is_newline c) (drop k r))
       (find (\<lambda>k. takeWhile (\<lambda>c. \<not> is_newline c) (drop k r) \<noteq> [])
          (rev [0 ..< Suc (length (takeWhile is_space r))]))"

text \<open>
  \<^verbatim>\<open>/sops_unencrypted_suffix\s*=\s*([^\n\r]+)/\<close> at one position: the key, white
  space, the assignment sign (which is no white space, so the first \<^verbatim>\<open>\s*\<close> has taken
  the whole run), then the end of the pattern.  The result is the text of group 1.
\<close>

definition re_suffix_at :: "string \<Rightarrow> string option" where
  "re_suffix_at t =
     (case strip_prefix ''sops_unencrypted_suffix'' t of
        None \<Rightarrow> None
      | Some r \<Rightarrow>
          (case dropWhile is_space r of
             [] \<Rightarrow> None
           | c # r' \<Rightarrow> if c = CHR ''='' then re_suffix_value r' else None))"

fun first_match :: "('a \<Rightarrow> 'b option) \<Rightarrow> 'a list \<Rightarrow> 'b option" where
  "first_match f [] = None"
| "first_match f (x # xs) = (case f x of Some y \<Rightarrow> Some y | None \<Rightarrow> first_match f xs)"

text \<open>\<^verbatim>\<open>decryptedContent.match(...)\<close>: the match at the leftmost position that has one.\<close>

definition re_suffix_directive :: "string \<Rightarrow> string option" where
  "re_suffix_directive s = first_match re_suffix_at (tails s)"

text \<open>
  What the pattern asks of a text, read off the pattern: somewhere the key, white space,
  the assignment sign, white space, and a non-empty run without line terminator.
\<close>

definition directive_in :: "string \<Rightarrow> bool" where
  "directive_in s \<longleftrightarrow>
     (\<exists>pre ws1 ws2 v post.
        s = pre @ ''sops_unencrypted_suffix'' @ ws1 @ ''='' @ ws2 @ v @ post \<and>
        (\<forall>c \<in> set ws1. is_space c) \<and> (\<forall>c \<in> set ws2. is_space c) \<and>
        v \<noteq> [] \<and> (\<forall>c \<in> set v. \<not> is_newline c))"

text \<open>The same, of a text at its start: a directive starts the text.\<close>

definition directive_at :: "string \<Rightarrow> bool" where
  "directive_at t \<longleftrightarrow>
     (\<exists>ws1 ws2 v post.
        t = ''sops_unencrypted_suffix'' @ ws1 @ ''='' @ ws2 @ v @ post \<and>
        (\<forall>c \<in> set ws1. is_space c) \<and> (\<forall>c \<in> set ws2. is_space c) \<and>
        v \<noteq> [] \<and> (\<forall>c \<in> set v. \<not> is_newline c))"

text \<open>Lines 26 to 30: the suffix of the working file.\<close>

definition unencrypted_suffix :: "string \<Rightarrow> string" where
  "unencrypted_suffix decryptedContent =
     (case re_suffix_directive decryptedContent of
        None \<Rightarrow> ''_decrypted''
      | Some m1 \<Rightarrow> trim m1)"

text \<open>Lines 31 to 36: the path of the working file.\<close>

definition tempPath_of :: "path \<Rightarrow> string \<Rightarrow> path" where
  "tempPath_of originalPath sfx =
     (let ext = extname originalPath;
          base = basename originalPath ext
      in join [take (length originalPath - length (basename originalPath [])) originalPath,
               base @ sfx @ ext])"

definition decryptToTempFile ::
  "sops_tool \<Rightarrow> path \<Rightarrow> filesystem \<Rightarrow> (error + path) \<times> filesystem" where
  "decryptToTempFile tool originalPath fs =
     (case exec_decrypt tool originalPath fs of
        Inl e \<Rightarrow> (Inl e, fs)
      | Inr decryptedContent \<Rightarrow>
          (let sfx = unencrypted_suffix decryptedContent;
               tempPath = tempPath_of originalPath sfx
           in case writeFile tempPath decryptedContent fs of
                Inl e \<Rightarrow> (Inl e, fs)
              | Inr fs' \<Rightarrow> (Inr tempPath, fs')))"

section \<open>Rule lookup (sopsHandler.ts, getApplicableCreationRules)\<close>

text \<open>
  A creation rule as the configuration gives it: the pattern, when the rule has one, and
  its other keys.  The parsed configuration has the sequence of rules under
  \<^verbatim>\<open>creation_rules\<close>, or has no such key.
\<close>

record creation_rule =
  path_regex :: "string option"
  rule_keys :: "(string \<times> string) list"

record sops_config =
  creation_rules :: "creation_rule list option"

text \<open>
  What the function takes from its surroundings: the folders of the workspace
  (\<open>None\<close> when the editor has no workspace), the YAML parser (\<open>None\<close> when
  \<^verbatim>\<open>yaml.load\<close> throws or the document is empty, where the reading of
  \<^verbatim>\<open>config.creation_rules\<close> throws), and the regular expressions of the language:
  \<open>RegExp pattern\<close> is \<open>None\<close> when \<^verbatim>\<open>new RegExp(pattern)\<close> throws a syntax
  error, and otherwise the \<^verbatim>\<open>test\<close> method of the expression.
\<close>

record rule_env =
  workspaceFolders :: "path list option"
  yaml_load :: "string \<Rightarrow> sops_config option"
  RegExp :: "string \<Rightarrow> (string \<Rightarrow> bool) option"

datatype js_error = TypeError | SyntaxError string | IOError error | YAMLException

text \<open>
  The loop over the rules.  \<^verbatim>\<open>!rule.path_regex\<close> holds for a rule without pattern and
  for the empty pattern; only otherwise is the expression built and tested.
\<close>

fun applicable_loop ::
  "(string \<Rightarrow> (string \<Rightarrow> bool) option) \<Rightarrow> path \<Rightarrow> creation_rule list \<Rightarrow> creation_rule list
     \<Rightarrow> js_error + creation_rule list" where
  "applicable_loop rx filePath [] applicableRules = Inr applicableRules"
| "applicable_loop rx filePath (rule # rest) applicableRules =
     (case path_regex rule of
        None \<Rightarrow> applicable_loop rx filePath rest (applicableRules @ [rule])
      | Some pat \<Rightarrow>
          if pat = [] then applicable_loop rx filePath rest (applicableRules @ [rule])
          else (case rx pat of
                  None \<Rightarrow> Inl (SyntaxError pat)
                | Some test \<Rightarrow>
                    if test filePath
                    then applicable_loop rx filePath rest (applicableRules @ [rule])
                    else applicable_loop rx filePath rest applicableRules))"

text \<open>\<^verbatim>\<open>vscode.workspace.workspaceFolders?.[0].uri.fsPath || ''\<close>: the empty string
  without workspace, the path of the first folder otherwise; reading the first folder of
  an empty list throws.\<close>

definition workspace_root :: "rule_env \<Rightarrow> js_error + path" where
  "workspace_root env =
     (case workspaceFolders env of
        None \<Rightarrow> Inr []
      | Some [] \<Rightarrow> Inl TypeError
      | Some (folder # _) \<Rightarrow> Inr folder)"

text \<open>The body of the \<^verbatim>\<open>try\<close> block.\<close>

definition applicable_rules_try ::
  "rule_env \<Rightarrow> filesystem \<Rightarrow> path \<Rightarrow> js_error + creation_rule list" where
  "applicable_rules_try env fs filePath =
     (case workspace_root env of
        Inl e \<Rightarrow> Inl e
      | Inr root \<Rightarrow>
     (case readFile (join [root, ''.sops.yaml'']) fs of
        Inl e \<Rightarrow> Inl (IOError e)
      | Inr configFile \<Rightarrow>
     (case yaml_load env configFile of
        None \<Rightarrow> Inl YAMLException
      | Some config \<Rightarrow>
     (case creation_rules config of
        None \<Rightarrow> Inr []
      | Some rules \<Rightarrow> applicable_loop (RegExp env) filePath rules []))))"

text \<open>The function: every error of the block is caught and gives the empty list.\<close>

definition getApplicableCreationRules :: "rule_env \<Rightarrow> filesystem \<Rightarrow> path \<Rightarrow> creation_rule list" where
  "getApplicableCreationRules env fs filePath =
     (case applicable_rules_try env fs filePath of
        Inl error \<Rightarrow> []
      | Inr applicableRules \<Rightarrow> applicableRules)"

text \<open>A pattern matches a path when it is an expression and its test succeeds.\<close>

definition regexp_matches :: "rule_env \<Rightarrow> string \<Rightarrow> path \<Rightarrow> bool" where
  "regexp_matches env pat p = (case RegExp env pat of None \<Rightarrow> False | Some test \<Rightarrow> test p)"

section \<open>The session (SopsContext.ts)\<close>

text \<open>
  The fields of the class, and what the handlers read and change outside it: the files,
  the editors the window shows, the active editor, and the messages shown to the user.
  A \<^verbatim>\<open>Map\<close> keeps its entries in the order of insertion, one entry per key, and the
  cleanup iterates over one, so the two maps are lists of pairs.  \<open>cleanupTimeout\<close>
  tells whether a timer is set and has not yet fired.  Each handler is one transition:
  what it awaits is done before the next event is handled.
\<close>

datatype status_bar = Hidden | ShownDecrypted path | ShownEncrypted

datatype notification =
    ReEncrypted path
  | ReEncryptFailed path error
  | DecryptionFailed error

record session =
  originalToTempMap :: "(path \<times> path) list"
  tempToOriginalMap :: "(path \<times> path) list"
  isCleaningUp :: bool
  cleanupTimeout :: bool
  statusBarItem :: status_bar
  visibleTextEditors :: "path list"
  activeTextEditor :: "path option"
  disk :: filesystem
  notifications :: "notification list"

record document =
  fileName :: path
  scheme :: string
  isClosed :: bool
  getText :: string

definition initial_session :: "filesystem \<Rightarrow> session" where
  "initial_session fs =
     \<lparr>originalToTempMap = [], tempToOriginalMap = [], isCleaningUp = False,
      cleanupTimeout = False, statusBarItem = Hidden, visibleTextEditors = [],
      activeTextEditor = None, disk = fs, notifications = []\<rparr>"

text \<open>\<^verbatim>\<open>cleanupTempFile\<close>: the error of \<^verbatim>\<open>unlink\<close> is ignored.\<close>

definition cleanupTempFile :: "path \<Rightarrow> filesystem \<Rightarrow> filesystem" where
  "cleanupTempFile tempPath fs = (case unlink tempPath fs of Inl err \<Rightarrow> fs | Inr fs' \<Rightarrow> fs')"

text \<open>
  What the window does for \<^verbatim>\<open>closeEditor\<close>: the document is shown, which makes its
  editor the active one, and the active editor is closed; no editor is active until the
  window reports the next one.
\<close>

definition close_active_editor :: "path \<Rightarrow> session \<Rightarrow> session" where
  "close_active_editor p s =
     s\<lparr>visibleTextEditors := remove1 p (visibleTextEditors s), activeTextEditor := None\<rparr>"

text \<open>
  \<^verbatim>\<open>closeEditor\<close>.  An editor is given by the file name of its document.  The
  function acts on the window only: it touches neither the maps nor the files.  Whether
  and when the window reports the document as closed is not up to the extension; the
  report is an event of its own.
\<close>

definition closeEditor :: "path \<Rightarrow> session \<Rightarrow> session" where
  "closeEditor editor s =
     (if editor \<in> set (visibleTextEditors s) then close_active_editor editor s else s)"

text \<open>\<^verbatim>\<open>onDidCloseTextDocument\<close>; the handler reads nothing of the document but its
  file name.\<close>

definition onDidCloseTextDocument :: "path \<Rightarrow> session \<Rightarrow> session" where
  "onDidCloseTextDocument closedPath s =
     (case map_of (tempToOriginalMap s) closedPath of
        Some originalPath \<Rightarrow>
          s\<lparr>disk := cleanupTempFile closedPath (disk s),
            tempToOriginalMap := AList.delete closedPath (tempToOriginalMap s),
            originalToTempMap := AList.delete originalPath (originalToTempMap s)\<rparr>
      | None \<Rightarrow>
          (case map_of (originalToTempMap s) closedPath of
             Some tempPath \<Rightarrow>
               if tempPath \<in> set (visibleTextEditors s) then closeEditor tempPath s else s
           | None \<Rightarrow> s))"

text \<open>\<^verbatim>\<open>onDidSaveTextDocument\<close>; \<open>uuid\<close> is the value \<^verbatim>\<open>randomUUID()\<close> gives in this
  call.\<close>

definition onDidSaveTextDocument :: "sops_tool \<Rightarrow> string \<Rightarrow> document \<Rightarrow> session \<Rightarrow> session" where
  "onDidSaveTextDocument tool uuid doc s =
     (let tempPath = fileName doc
      in case map_of (tempToOriginalMap s) tempPath of
           None \<Rightarrow> s
         | Some originalPath \<Rightarrow>
             (case encryptAndReplaceOriginal tool uuid (getText doc) originalPath (disk s) of
                (Inr _, fs') \<Rightarrow>
                  s\<lparr>disk := fs', notifications := notifications s @ [ReEncrypted originalPath]\<rparr>
              | (Inl error, fs') \<Rightarrow>
                  s\<lparr>disk := fs',
                    notifications := notifications s @ [ReEncryptFailed originalPath error]\<rparr>))"

text \<open>\<^verbatim>\<open>updateStatusBar\<close>.\<close>

definition updateStatusBar :: "path option \<Rightarrow> session \<Rightarrow> session" where
  "updateStatusBar editor s =
     (case editor of
        None \<Rightarrow> s\<lparr>statusBarItem := Hidden\<rparr>
      | Some activePath \<Rightarrow>
          if activePath = [] then s\<lparr>statusBarItem := Hidden\<rparr>
          else (case map_of (tempToOriginalMap s) activePath of
                  Some originalPath \<Rightarrow> s\<lparr>statusBarItem := ShownDecrypted originalPath\<rparr>
                | None \<Rightarrow>
                    if map_of (originalToTempMap s) activePath \<noteq> None
                    then s\<lparr>statusBarItem := ShownEncrypted\<rparr>
                    else s\<lparr>statusBarItem := Hidden\<rparr>))"

text \<open>\<^verbatim>\<open>onDidChangeActiveTextEditor\<close>, up to the setting of the timer: a timer that
  is set is cleared, the status bar is updated, and a new timer is set.\<close>

definition onDidChangeActiveTextEditor :: "path option \<Rightarrow> session \<Rightarrow> session" where
  "onDidChangeActiveTextEditor editor s = (updateStatusBar editor s)\<lparr>cleanupTimeout := True\<rparr>"

text \<open>One turn of the second loop of the timer's callback.\<close>

definition clean_context :: "path \<times> path \<Rightarrow> session \<Rightarrow> session" where
  "clean_context c s =
     (case c of (tempPath, originalPath) \<Rightarrow>
        if tempPath \<in> set (visibleTextEditors s) then closeEditor tempPath s
        else s\<lparr>disk := cleanupTempFile tempPath (disk s),
               tempToOriginalMap := AList.delete tempPath (tempToOriginalMap s),
               originalToTempMap := AList.delete originalPath (originalToTempMap s)\<rparr>)"

text \<open>The first loop: the pairs that have nothing to do with the active path.\<close>

definition contextsToClean :: "path option \<Rightarrow> (path \<times> path) list \<Rightarrow> (path \<times> path) list" where
  "contextsToClean currentActivePath entries =
     filter (\<lambda>(tempPath, originalPath).
               currentActivePath \<noteq> Some tempPath \<and> currentActivePath \<noteq> Some originalPath)
       entries"

text \<open>The callback of the timer.\<close>

definition cleanup_callback :: "session \<Rightarrow> session" where
  "cleanup_callback s =
     (if isCleaningUp s then s
      else let s1 = s\<lparr>isCleaningUp := True\<rparr>;
               currentActivePath = activeTextEditor s1;
               s2 = fold clean_context
                      (contextsToClean currentActivePath (tempToOriginalMap s1)) s1
           in s2\<lparr>isCleaningUp := False\<rparr>)"

text \<open>
  What the window does for \<^verbatim>\<open>openTextDocument\<close> and \<^verbatim>\<open>showTextDocument\<close>: the
  document gets an editor, unless one shows it already, and that editor becomes the active
  one.
\<close>

definition show_document :: "path \<Rightarrow> session \<Rightarrow> session" where
  "show_document p s =
     s\<lparr>visibleTextEditors :=
         (if p \<in> set (visibleTextEditors s) then visibleTextEditors s
          else visibleTextEditors s @ [p]),
       activeTextEditor := Some p\<rparr>"

text \<open>\<^verbatim>\<open>onDidOpenTextDocument\<close>.\<close>

definition onDidOpenTextDocument :: "sops_tool \<Rightarrow> document \<Rightarrow> session \<Rightarrow> session" where
  "onDidOpenTextDocument tool doc s =
     (if isCleaningUp s then s
      else let docPath = fileName doc
           in if scheme doc \<noteq> ''file'' then s
              else if map_of (originalToTempMap s) docPath \<noteq> None
                      \<or> map_of (tempToOriginalMap s) docPath \<noteq> None \<or> isClosed doc then s
              else if isSopsEncrypted (getText doc) then
                (case decryptToTempFile tool docPath (disk s) of
                   (Inr newTempPath, fs') \<Rightarrow>
                     show_document newTempPath
                       (s\<lparr>disk := fs',
                          tempToOriginalMap :=
                            AList.update newTempPath docPath (tempToOriginalMap s),
                          originalToTempMap :=
                            AList.update docPath newTempPath (originalToTempMap s)\<rparr>)
                 | (Inl error, fs') \<Rightarrow>
                     s\<lparr>disk := fs', notifications := notifications s @ [DecryptionFailed error]\<rparr>)
              else s)"

text \<open>
  The events of a session and the transition each one makes.  A change of focus is
  reported with the new active editor; the timer fires only when it is set.
\<close>

datatype event =
    Open document
  | Save document string
  | Close document
  | FocusChange "path option"
  | TimerFire

fun step :: "sops_tool \<Rightarrow> event \<Rightarrow> session \<Rightarrow> session" where
  "step tool (Open doc) s = onDidOpenTextDocument tool doc s"
| "step tool (Save doc uuid) s = onDidSaveTextDocument tool uuid doc s"
| "step tool (Close doc) s = onDidCloseTextDocument (fileName doc) s"
| "step tool (FocusChange editor) s =
     onDidChangeActiveTextEditor editor (s\<lparr>activeTextEditor := editor\<rparr>)"
| "step tool TimerFire s =
     (if cleanupTimeout s then cleanup_callback (s\<lparr>cleanupTimeout := False\<rparr>) else s)"

fun run :: "sops_tool \<Rightarrow> event list \<Rightarrow> session \<Rightarrow> session" where
  "run tool [] s = s"
| "run tool (e # es) s = run tool es (step tool e s)"

text \<open>
  What holds of the two maps in every state a session reaches: each is a map (one entry
  per key), and every entry of \<open>tempToOriginalMap\<close> has its mirror entry in
  \<open>originalToTempMap\<close>.
\<close>

definition session_inv :: "session \<Rightarrow> bool" where
  "session_inv s \<longleftrightarrow>
     distinct (map fst (tempToOriginalMap s)) \<and>
     distinct (map fst (originalToTempMap s)) \<and>
     (\<forall>(w, orig) \<in> set (tempToOriginalMap s). map_of (originalToTempMap s) orig = Some w)"

text \<open>The two maps are mutual inverses.\<close>

definition paired :: "session \<Rightarrow> bool" where
  "paired s \<longleftrightarrow>
     (\<forall>orig w. map_of (originalToTempMap s) orig = Some w
                \<longleftrightarrow> map_of (tempToOriginalMap s) w = Some orig)"

section \<open>Values used in the examples\<close>

text \<open>A tool without a usable key: every run fails with the same diagnostic.\<close>

definition failing_tool :: sops_tool where
  "failing_tool =
     \<lparr>sops_decrypt = (\<lambda>cmd cwd fs. Inl ''no key''),
      sops_encrypt = (\<lambda>cmd cwd fs. Inl ''no key'')\<rparr>"

text \<open>
  The file a command line reaches, for the tools of the examples: the command is the
  word \<^verbatim>\<open>sops\<close>, the options, and one argument between double quotes in which no
  character is special to the shell; a relative argument is taken from the working
  directory.
\<close>

definition sops_argument :: "string \<Rightarrow> string \<Rightarrow> path \<Rightarrow> path option" where
  "sops_argument options cmd cwd =
     (case strip_prefix (''sops '' @ options @ '' '' @ [CHR 0x22]) cmd of
        None \<Rightarrow> None
      | Some r \<Rightarrow>
          (let arg = butlast r
           in if r \<noteq> [] \<and> last r = CHR 0x22 \<and> arg \<noteq> [] \<and>
                 list_all (\<lambda>c. c \<notin> {CHR 0x22, CHR 0x24, CHR 0x5C, CHR 0x60}) arg
              then Some (if hd arg = CHR ''/'' then normalize arg else join [cwd, arg])
              else None))"

text \<open>A tool that decrypts every file it finds to the plaintext \<open>dec\<close> gives for it, and
  has no key to encrypt.\<close>

definition decrypting_tool :: "(path \<Rightarrow> string) \<Rightarrow> sops_tool" where
  "decrypting_tool dec =
     \<lparr>sops_decrypt = (\<lambda>cmd cwd fs.
        case sops_argument ''-d'' cmd cwd of
          None \<Rightarrow> Inl ''usage''
        | Some p \<Rightarrow> (case files fs p of None \<Rightarrow> Inl ''no such file'' | Some c \<Rightarrow> Inr (dec p))),
      sops_encrypt = (\<lambda>cmd cwd fs. Inl ''no key'')\<rparr>"

definition one_file :: filesystem where
  "one_file = \<lparr>files = [''a.yaml'' \<mapsto> ''ENC[old]''], denied = {}\<rparr>"

text \<open>The same store, on which the backup path cannot be created.\<close>

definition no_backup_allowed :: filesystem where
  "no_backup_allowed =
     \<lparr>files = [''a.yaml'' \<mapsto> ''ENC[old]''], denied = {''a.yaml.sops-backup.u1''}\<rparr>"

text \<open>
  Four such tools: one gives a plaintext with the directive, one a plaintext without
  it, one a plaintext in which the value of the directive goes on after
  \<^verbatim>\<open>_clear\<close>, one a plaintext with a directive in a comment before the directive.
  A store with one encrypted file; and a store in which the command
  finds a file for the relative path \<^verbatim>\<open>a/b/secret.yaml\<close>, which it takes from the
  working directory \<^verbatim>\<open>a/b\<close>.
\<close>

definition clear_tool :: sops_tool where
  "clear_tool = decrypting_tool (\<lambda>p. ''user: x\<newline>sops_unencrypted_suffix = _clear\<newline>pw: y'')"

definition plain_tool :: sops_tool where
  "plain_tool = decrypting_tool (\<lambda>p. ''user: x'')"

definition clear_v2_tool :: sops_tool where
  "clear_v2_tool = decrypting_tool (\<lambda>p. ''user: x\<newline>sops_unencrypted_suffix = _clear_v2\<newline>'')"

definition commented_tool :: sops_tool where
  "commented_tool =
     decrypting_tool
       (\<lambda>p. ''# sops_unencrypted_suffix = _old\<newline>sops_unencrypted_suffix = _clear\<newline>'')"

definition secret_store :: filesystem where
  "secret_store = \<lparr>files = [''/w/secret.yaml'' \<mapsto> ''user: ENC[1]\<newline>sops:\<newline>''], denied = {}\<rparr>"

definition relative_store :: filesystem where
  "relative_store =
     \<lparr>files = [''a/b/a/b/secret.yaml'' \<mapsto> ''user: ENC[1]\<newline>sops:\<newline>''], denied = {}\<rparr>"

text \<open>What \<^verbatim>\<open>RegExp\<close> does with the patterns of the examples: the unterminated group
  is a syntax error; \<^verbatim>\<open>.*\.yaml$\<close> succeeds on the strings that end with
  \<^verbatim>\<open>.yaml\<close>; a word succeeds on the strings it occurs in; the empty pattern succeeds
  on every string.\<close>

definition example_RegExp :: "string \<Rightarrow> (string \<Rightarrow> bool) option" where
  "example_RegExp pat =
     (if pat = ''('' then None
      else if pat = ''.*'' @ [CHR 0x5C] @ ''.yaml$'' then Some (\<lambda>s. suffix ''.yaml'' s)
      else if pat = [] then Some (\<lambda>s. True)
      else if pat = ''secret'' then Some (\<lambda>s. sublist ''secret'' s)
      else None)"

definition fallback_rule :: creation_rule where
  "fallback_rule = \<lparr>path_regex = None, rule_keys = [(''pgp'', ''FINGERPRINT'')]\<rparr>"

definition yaml_rule :: creation_rule where
  "yaml_rule = \<lparr>path_regex = Some (''.*'' @ [CHR 0x5C] @ ''.yaml$''), rule_keys = [(''age'', ''age1key'')]\<rparr>"

definition broken_rule :: creation_rule where
  "broken_rule = \<lparr>path_regex = Some ''('', rule_keys = [(''age'', ''age1key'')]\<rparr>"

definition example_env :: "creation_rule list \<Rightarrow> rule_env" where
  "example_env rules =
     \<lparr>workspaceFolders = Some [''/w''],
      yaml_load = (\<lambda>text. Some \<lparr>creation_rules = Some rules\<rparr>),
      RegExp = example_RegExp\<rparr>"

definition config_store :: filesystem where
  "config_store = \<lparr>files = [''/w/.sops.yaml'' \<mapsto> ''creation_rules: ...''], denied = {}\<rparr>"

text \<open>
  Two encrypted files in one folder, with a tool whose plaintext for \<^verbatim>\<open>app.yaml\<close>
  carries the directive \<^verbatim>\<open>sops_unencrypted_suffix = _dev_decrypted\<close>; their
  documents; and the document of the file of \<open>secret_store\<close>.
\<close>

definition two_files_tool :: sops_tool where
  "two_files_tool =
     decrypting_tool (\<lambda>p.
        if p = ''app.yaml'' then ''sops_unencrypted_suffix = _dev_decrypted\<newline>user: a''
        else ''user: b'')"

definition two_files :: filesystem where
  "two_files =
     \<lparr>files = [''app.yaml'' \<mapsto> ''user: ENC[1]\<newline>sops:\<newline>  version: 3'',
               ''app_dev.yaml'' \<mapsto> ''user: ENC[2]\<newline>sops:\<newline>  version: 3''],
      denied = {}\<rparr>"

definition app_doc :: document where
  "app_doc = \<lparr>fileName = ''app.yaml'', scheme = ''file'', isClosed = False,
               getText = ''user: ENC[1]\<newline>sops:\<newline>  version: 3''\<rparr>"

definition app_dev_doc :: document where
  "app_dev_doc = \<lparr>fileName = ''app_dev.yaml'', scheme = ''file'', isClosed = False,
               getText = ''user: ENC[2]\<newline>sops:\<newline>  version: 3''\<rparr>"

definition secret_doc :: document where
  "secret_doc = \<lparr>fileName = ''/w/secret.yaml'', scheme = ''file'', isClosed = False,
               getText = ''user: ENC[1]\<newline>sops:\<newline>''\<rparr>"

text \<open>
  The session after the two opens, in which the two originals have one working path,
  the original \<^verbatim>\<open>app.yaml\<close> has been closed, which closed the editor of the working
  file, and the focus is on the other original.
\<close>

definition collided_session :: session where
  "collided_session =
     run two_files_tool
       [Open app_dev_doc, Open app_doc, Close app_doc, FocusChange (Some ''app_dev.yaml'')]
       (initial_session two_files)"




section \<open>Occurrences\<close>

lemma includes_iff_sublist: "includes_str s t \<longleftrightarrow> sublist t s"
  by (induction s) (auto simp: sublist_Cons_right)

lemma includes_append_mono: "includes_str s t \<Longrightarrow> includes_str (p @ s @ q) t"
  unfolding includes_iff_sublist
  by (meson sublist_appendI sublist_order.order_trans)

lemma sublist_sops_block: "sublist ''sops'' ''sops:\<newline>''"
proof -
  have "''sops:\<newline>'' = [] @ ''sops'' @ '':\<newline>''" by simp
  then show ?thesis unfolding sublist_def by blast
qed

lemma sops_block_has_sops: "sublist ''sops:\<newline>'' s \<Longrightarrow> sublist ''sops'' s"
  using sublist_sops_block sublist_order.order_trans by blast

lemma strip_prefix_Some_iff: "strip_prefix p s = Some r \<longleftrightarrow> s = p @ r"
  by (induction p s rule: strip_prefix.induct) auto

lemma set_tails: "t \<in> set (tails s) \<longleftrightarrow> suffix t s"
  by (induction s) (auto simp: suffix_Cons)

text \<open>What the translation of \<^verbatim>\<open>/"sops":\s*{/\<close> accepts at one position.\<close>

lemma re_quoted_sops_at_iff:
  "re_quoted_sops_at t \<longleftrightarrow>
     (\<exists>ws post. t = [CHR 0x22] @ ''sops'' @ [CHR 0x22] @ '':'' @ ws @ ''{'' @ post \<and>
        (\<forall>c \<in> set ws. is_space c))"
  (is "?l \<longleftrightarrow> ?r")
proof
  assume ?l
  then obtain r where r: "t = ([CHR 0x22] @ ''sops'' @ [CHR 0x22] @ '':'') @ r"
    and d: "(case dropWhile is_space r of [] \<Rightarrow> False | c # _ \<Rightarrow> c = CHR ''{'')"
    by (auto simp: re_quoted_sops_at_def strip_prefix_Some_iff split: option.splits)
  from d obtain post where p: "dropWhile is_space r = CHR ''{'' # post"
    by (auto split: list.splits)
  have "r = takeWhile is_space r @ dropWhile is_space r" by simp
  with p have "r = takeWhile is_space r @ ''{'' @ post" by simp
  moreover have "\<forall>c \<in> set (takeWhile is_space r). is_space c"
    by (auto dest: set_takeWhileD)
  ultimately show ?r using r by auto
next
  assume ?r
  then obtain ws post
    where t: "t = ([CHR 0x22] @ ''sops'' @ [CHR 0x22] @ '':'') @ (ws @ ''{'' @ post)"
    and ws: "\<forall>c \<in> set ws. is_space c" by auto
  have "\<not> is_space (CHR ''{'')" by (simp add: is_space_def)
  with ws have "dropWhile is_space (ws @ ''{'' @ post) = ''{'' @ post"
    by (simp add: dropWhile_append)
  moreover have "strip_prefix ([CHR 0x22] @ ''sops'' @ [CHR 0x22] @ '':'') t
                   = Some (ws @ ''{'' @ post)"
    unfolding strip_prefix_Some_iff by (rule t)
  ultimately show ?l
    unfolding re_quoted_sops_at_def by simp
qed

lemma re_quoted_sops_iff:
  "re_quoted_sops s \<longleftrightarrow>
     (\<exists>pre ws post. s = pre @ [CHR 0x22] @ ''sops'' @ [CHR 0x22] @ '':'' @ ws @ ''{'' @ post \<and>
        (\<forall>c \<in> set ws. is_space c))"
  (is "?l \<longleftrightarrow> ?r")
proof
  assume ?l
  then obtain t where t: "suffix t s" "re_quoted_sops_at t"
    by (auto simp: re_quoted_sops_def list_ex_iff set_tails)
  from t(1) obtain pre where "s = pre @ t" unfolding suffix_def by blast
  moreover from t(2) obtain ws post
    where "t = [CHR 0x22] @ ''sops'' @ [CHR 0x22] @ '':'' @ ws @ ''{'' @ post" "\<forall>c \<in> set ws. is_space c"
    unfolding re_quoted_sops_at_iff by blast
  ultimately show ?r by blast
next
  assume ?r
  then obtain pre ws post
    where s: "s = pre @ ([CHR 0x22] @ ''sops'' @ [CHR 0x22] @ '':'' @ ws @ ''{'' @ post)"
      and ws: "\<forall>c \<in> set ws. is_space c" by blast
  from ws have "re_quoted_sops_at ([CHR 0x22] @ ''sops'' @ [CHR 0x22] @ '':'' @ ws @ ''{'' @ post)"
    unfolding re_quoted_sops_at_iff by blast
  moreover from s have "suffix ([CHR 0x22] @ ''sops'' @ [CHR 0x22] @ '':'' @ ws @ ''{'' @ post) s"
    unfolding suffix_def by blast
  ultimately show ?l
    by (auto simp only: re_quoted_sops_def list_ex_iff set_tails)
qed

section \<open>Properties of the heuristic\<close>

text \<open>
  Claim C3.  The heuristic answers no for a content whose lower-cased text has no
  occurrence of \<^verbatim>\<open>sops\<close>; it answers yes when the lower-cased text has an occurrence
  of \<^verbatim>\<open>sops\<close> and one of \<^verbatim>\<open>enc[\<close>; and it answers yes when the lower-cased text
  has the token \<^verbatim>\<open>sops:\<close> followed by a line feed, whether or not \<^verbatim>\<open>enc[\<close> occurs.
\<close>

theorem isSopsEncrypted_cases:
  "(\<not> sublist ''sops'' (toLowerCase content) \<longrightarrow> \<not> isSopsEncrypted content) \<and>
   (sublist ''sops'' (toLowerCase content) \<and> sublist ''enc['' (toLowerCase content)
      \<longrightarrow> isSopsEncrypted content) \<and>
   (sublist ''sops:\<newline>'' (toLowerCase content) \<longrightarrow> isSopsEncrypted content)"
proof (intro conjI impI)
  assume "\<not> sublist ''sops'' (toLowerCase content)"
  then show "\<not> isSopsEncrypted content"
    by (simp add: isSopsEncrypted_def includes_iff_sublist)
next
  assume "sublist ''sops'' (toLowerCase content) \<and> sublist ''enc['' (toLowerCase content)"
  then show "isSopsEncrypted content"
    by (simp add: isSopsEncrypted_def includes_iff_sublist)
next
  assume h: "sublist ''sops:\<newline>'' (toLowerCase content)"
  then have "sublist ''sops'' (toLowerCase content)"
    by (rule sops_block_has_sops)
  with h show "isSopsEncrypted content"
    by (simp add: isSopsEncrypted_def re_sops_block_def includes_iff_sublist)
qed

theorem isSopsEncrypted_cases_witness:
  "(\<not> sublist ''sops'' (toLowerCase ''key: value'') \<and> \<not> isSopsEncrypted ''key: value'') \<and>
   (sublist ''sops'' (toLowerCase ''Sops pw: ENC[AES256_GCM,data:x]'') \<and>
    sublist ''enc['' (toLowerCase ''Sops pw: ENC[AES256_GCM,data:x]'') \<and>
    isSopsEncrypted ''Sops pw: ENC[AES256_GCM,data:x]'') \<and>
   (sublist ''sops:\<newline>'' (toLowerCase ''k: v\<newline>sops:\<newline>  version: 3'') \<and>
    \<not> sublist ''enc['' (toLowerCase ''k: v\<newline>sops:\<newline>  version: 3'') \<and>
    isSopsEncrypted ''k: v\<newline>sops:\<newline>  version: 3'')"
proof -
  have a: "\<not> sublist ''sops'' (toLowerCase ''key: value'')" by code_simp
  have b: "sublist ''sops'' (toLowerCase ''Sops pw: ENC[AES256_GCM,data:x]'') \<and>
    sublist ''enc['' (toLowerCase ''Sops pw: ENC[AES256_GCM,data:x]'')" by code_simp
  have c: "sublist ''sops:\<newline>'' (toLowerCase ''k: v\<newline>sops:\<newline>  version: 3'')"
    by code_simp
  have d: "\<not> sublist ''enc['' (toLowerCase ''k: v\<newline>sops:\<newline>  version: 3'')"
    by code_simp
  from a isSopsEncrypted_cases [of "''key: value''"]
  have a': "\<not> isSopsEncrypted ''key: value''" by blast
  from b isSopsEncrypted_cases [of "''Sops pw: ENC[AES256_GCM,data:x]''"]
  have b': "isSopsEncrypted ''Sops pw: ENC[AES256_GCM,data:x]''" by blast
  from c isSopsEncrypted_cases [of "''k: v\<newline>sops:\<newline>  version: 3''"]
  have c': "isSopsEncrypted ''k: v\<newline>sops:\<newline>  version: 3''" by blast
  from a a' b b' c c' d show ?thesis by blast
qed

text \<open>
  Claim C4, as stated, asks that the unquoted marker \<^verbatim>\<open>sops:\<close> with its line feed
  counts only at the beginning of a line.  The content \<^verbatim>\<open>a sops:\<close> followed by a line
  feed has an occurrence of \<^verbatim>\<open>sops\<close>, no encrypted-value marker and no quoted
  metadata marker; its only \<^verbatim>\<open>sops:\<close> stands in the middle of the first line (it is
  not a prefix of the text and no line feed comes before it), and the heuristic answers
  yes.
\<close>

theorem isSopsEncrypted_block_not_at_line_start:
  "sublist ''sops'' (toLowerCase ''a sops:\<newline>'') \<and>
   \<not> sublist ''enc['' (toLowerCase ''a sops:\<newline>'') \<and>
   \<not> re_quoted_enc (toLowerCase ''a sops:\<newline>'') \<and>
   \<not> re_quoted_sops (toLowerCase ''a sops:\<newline>'') \<and>
   \<not> prefix ''sops:\<newline>'' (toLowerCase ''a sops:\<newline>'') \<and>
   \<not> sublist ''\<newline>sops:\<newline>'' (toLowerCase ''a sops:\<newline>'') \<and>
   isSopsEncrypted ''a sops:\<newline>''"
  by code_simp

text \<open>
  Claim C4, amended.  For a content whose lower-cased text has an occurrence of
  \<^verbatim>\<open>sops\<close>, no encrypted-value marker (neither \<^verbatim>\<open>enc[\<close> nor \<^verbatim>\<open>"enc":\<close>) and no
  quoted metadata marker, the heuristic answers yes exactly when \<^verbatim>\<open>sops:\<close> followed
  by a line feed occurs anywhere in the lower-cased text, at the beginning of a line or not.
\<close>

theorem isSopsEncrypted_unquoted_block:
  assumes "sublist ''sops'' (toLowerCase content)"
    and "\<not> sublist ''enc['' (toLowerCase content)"
    and "\<not> re_quoted_enc (toLowerCase content)"
    and "\<not> re_quoted_sops (toLowerCase content)"
  shows "isSopsEncrypted content \<longleftrightarrow> sublist ''sops:\<newline>'' (toLowerCase content)"
  using assms by (simp add: isSopsEncrypted_def re_sops_block_def includes_iff_sublist)

theorem isSopsEncrypted_unquoted_block_witness:
  "(isSopsEncrypted ''k: 1 # SOPS:\<newline>''
      \<longleftrightarrow> sublist ''sops:\<newline>'' (toLowerCase ''k: 1 # SOPS:\<newline>'')) \<and>
   isSopsEncrypted ''k: 1 # SOPS:\<newline>'' \<and>
   (isSopsEncrypted ''sops: 1\<newline>'' \<longleftrightarrow> sublist ''sops:\<newline>'' (toLowerCase ''sops: 1\<newline>'')) \<and>
   \<not> isSopsEncrypted ''sops: 1\<newline>''"
proof -
  have h1: "sublist ''sops'' (toLowerCase ''k: 1 # SOPS:\<newline>'')"
    "\<not> sublist ''enc['' (toLowerCase ''k: 1 # SOPS:\<newline>'')"
    "\<not> re_quoted_enc (toLowerCase ''k: 1 # SOPS:\<newline>'')"
    "\<not> re_quoted_sops (toLowerCase ''k: 1 # SOPS:\<newline>'')"
    by code_simp+
  have h2: "sublist ''sops'' (toLowerCase ''sops: 1\<newline>'')"
    "\<not> sublist ''enc['' (toLowerCase ''sops: 1\<newline>'')"
    "\<not> re_quoted_enc (toLowerCase ''sops: 1\<newline>'')"
    "\<not> re_quoted_sops (toLowerCase ''sops: 1\<newline>'')"
    by code_simp+
  have y: "sublist ''sops:\<newline>'' (toLowerCase ''k: 1 # SOPS:\<newline>'')" by code_simp
  have n: "\<not> sublist ''sops:\<newline>'' (toLowerCase ''sops: 1\<newline>'')" by code_simp
  note e1 = isSopsEncrypted_unquoted_block [OF h1]
  note e2 = isSopsEncrypted_unquoted_block [OF h2]
  from e1 e2 y n show ?thesis by blast
qed

section \<open>Properties of encrypt-and-replace\<close>

text \<open>
  Claim C1.  When the backup copy succeeds, the plaintext is written, the in-place
  encryption fails with an error \<open>e\<close> and the rename of the backup over the original
  succeeds, the function throws \<open>e\<close> itself, which is the error of the tool and not a
  result of the restoration; the original holds what it held before the call; and no file
  is left at the backup path.
\<close>

theorem encrypt_failure_restores_original:
  assumes backup: "b = originalPath @ ''.sops-backup.'' @ uuid"
    and copy: "copyFile originalPath b fs = Inr fs1"
    and wr: "writeFile originalPath content fs1 = Inr fs2"
    and encrypt: "exec_encrypt_in_place tool originalPath fs2 = Inl e"
    and restore: "rename b originalPath fs2 = Inr fs3"
  shows "encryptAndReplaceOriginal tool uuid content originalPath fs = (Inl e, fs3) \<and>
         files fs3 originalPath = files fs originalPath \<and>
         files fs3 b = None \<and>
         (\<exists>stderr. e = ToolError stderr)"
proof -
  from backup have ne: "b \<noteq> originalPath" by simp
  from copy obtain c where c: "files fs originalPath = Some c"
    and fs1: "fs1 = fs\<lparr>files := (files fs)(b \<mapsto> c)\<rparr>"
    by (auto simp: copyFile_def split: option.splits if_splits)
  from wr have fs2: "fs2 = fs1\<lparr>files := (files fs1)(originalPath \<mapsto> content)\<rparr>"
    by (auto simp: writeFile_def split: if_splits)
  from restore fs1 fs2 ne
  have fs3: "fs3 = fs2\<lparr>files := ((files fs2)(b := None))(originalPath \<mapsto> c)\<rparr>"
    by (auto simp: rename_def split: option.splits if_splits)
  have steps: "encrypt_steps tool content originalPath b fs = (Some e, fs2)"
    by (simp add: encrypt_steps_def copy wr encrypt)
  have run: "encryptAndReplaceOriginal tool uuid content originalPath fs = (Inl e, fs3)"
    using steps restore unfolding backup by (simp add: encryptAndReplaceOriginal_def)
  have same: "files fs3 originalPath = files fs originalPath"
    by (simp add: fs3 c)
  have gone: "files fs3 b = None"
    using ne by (simp add: fs3)
  from encrypt have "\<exists>stderr. e = ToolError stderr"
    by (auto simp: exec_encrypt_in_place_def Let_def split: sum.splits)
  with run same gone show ?thesis by simp
qed

theorem encrypt_failure_restores_original_witness:
  "fst (encryptAndReplaceOriginal failing_tool ''u1'' ''new: text'' ''a.yaml'' one_file)
     = Inl (ToolError ''no key'') \<and>
   files (snd (encryptAndReplaceOriginal failing_tool ''u1'' ''new: text'' ''a.yaml'' one_file))
     ''a.yaml'' = Some ''ENC[old]'' \<and>
   files one_file ''a.yaml'' = Some ''ENC[old]'' \<and>
   files (snd (encryptAndReplaceOriginal failing_tool ''u1'' ''new: text'' ''a.yaml'' one_file))
     ''a.yaml.sops-backup.u1'' = None"
proof -
  define fs1 where "fs1 = one_file\<lparr>files := (files one_file)(''a.yaml.sops-backup.u1'' \<mapsto> ''ENC[old]'')\<rparr>"
  define fs2 where "fs2 = fs1\<lparr>files := (files fs1)(''a.yaml'' \<mapsto> ''new: text'')\<rparr>"
  define fs3 where "fs3 = fs2\<lparr>files := ((files fs2)(''a.yaml.sops-backup.u1'' := None))(''a.yaml'' \<mapsto> ''ENC[old]'')\<rparr>"
  have b: "''a.yaml.sops-backup.u1'' = ''a.yaml'' @ ''.sops-backup.'' @ ''u1''" by simp
  have c: "copyFile ''a.yaml'' ''a.yaml.sops-backup.u1'' one_file = Inr fs1"
    by (simp add: copyFile_def one_file_def fs1_def)
  have w: "writeFile ''a.yaml'' ''new: text'' fs1 = Inr fs2"
    by (simp add: writeFile_def one_file_def fs1_def fs2_def)
  have e: "exec_encrypt_in_place failing_tool ''a.yaml'' fs2 = Inl (ToolError ''no key'')"
    by (simp add: exec_encrypt_in_place_def failing_tool_def Let_def)
  have r: "rename ''a.yaml.sops-backup.u1'' ''a.yaml'' fs2 = Inr fs3"
    by (simp add: rename_def one_file_def fs1_def fs2_def fs3_def)
  from encrypt_failure_restores_original [OF b c w e r]
  show ?thesis by (simp add: one_file_def)
qed

text \<open>In that run the whole store is back to what it was, but for the backup path.\<close>

lemma encrypt_failure_store:
  assumes backup: "b = originalPath @ ''.sops-backup.'' @ uuid"
    and copy: "copyFile originalPath b fs = Inr fs1"
    and wr: "writeFile originalPath content fs1 = Inr fs2"
    and restore: "rename b originalPath fs2 = Inr fs3"
  shows "fs3 = fs\<lparr>files := (files fs)(b := None)\<rparr>"
proof -
  from backup have ne: "b \<noteq> originalPath" by simp
  from copy obtain c where c: "files fs originalPath = Some c"
    and fs1: "fs1 = fs\<lparr>files := (files fs)(b \<mapsto> c)\<rparr>"
    by (auto simp: copyFile_def split: option.splits if_splits)
  from wr have fs2: "fs2 = fs1\<lparr>files := (files fs1)(originalPath \<mapsto> content)\<rparr>"
    by (auto simp: writeFile_def split: if_splits)
  from restore fs1 fs2 ne
  have fs3: "fs3 = fs2\<lparr>files := ((files fs2)(b := None))(originalPath \<mapsto> c)\<rparr>"
    by (auto simp: rename_def split: option.splits if_splits)
  have "((files fs2)(b := None))(originalPath \<mapsto> c) = (files fs)(b := None)"
    using ne c by (auto simp: fs2 fs1 fun_eq_iff)
  then show ?thesis by (simp add: fs3 fs2 fs1)
qed

text \<open>
  Claim C8.  When the backup copy itself fails, with an error \<open>e\<close>, and there is no file
  at the backup path, the store is left as it was, and the error thrown is the critical
  error built from the failed rename of the missing backup, which is not \<open>e\<close>.
\<close>

theorem backup_copy_failure_is_reported_critical:
  assumes backup: "b = originalPath @ ''.sops-backup.'' @ uuid"
    and copy: "copyFile originalPath b fs = Inl e"
    and fresh: "files fs b = None"
  shows "encryptAndReplaceOriginal tool uuid content originalPath fs
           = (Inl (CriticalError originalPath (ENOENT b)), fs) \<and>
         CriticalError originalPath (ENOENT b) \<noteq> e"
proof -
  have steps: "encrypt_steps tool content originalPath b fs = (Some e, fs)"
    by (simp add: encrypt_steps_def copy)
  have "rename b originalPath fs = Inl (ENOENT b)"
    by (simp add: rename_def fresh)
  with steps have "encryptAndReplaceOriginal tool uuid content originalPath fs
           = (Inl (CriticalError originalPath (ENOENT b)), fs)"
    unfolding backup by (simp add: encryptAndReplaceOriginal_def)
  moreover from copy have "e = ENOENT originalPath \<or> e = EACCES b"
    by (auto simp: copyFile_def split: option.splits if_splits)
  ultimately show ?thesis by auto
qed

theorem backup_copy_failure_is_reported_critical_witness:
  "copyFile ''a.yaml'' ''a.yaml.sops-backup.u1'' no_backup_allowed
     = Inl (EACCES ''a.yaml.sops-backup.u1'') \<and>
   encryptAndReplaceOriginal failing_tool ''u1'' ''new: text'' ''a.yaml'' no_backup_allowed
     = (Inl (CriticalError ''a.yaml'' (ENOENT ''a.yaml.sops-backup.u1'')), no_backup_allowed)"
proof -
  have b: "''a.yaml.sops-backup.u1'' = ''a.yaml'' @ ''.sops-backup.'' @ ''u1''" by simp
  have c: "copyFile ''a.yaml'' ''a.yaml.sops-backup.u1'' no_backup_allowed
     = Inl (EACCES ''a.yaml.sops-backup.u1'')"
    by (simp add: copyFile_def no_backup_allowed_def)
  have f: "files no_backup_allowed ''a.yaml.sops-backup.u1'' = None"
    by (simp add: no_backup_allowed_def)
  from backup_copy_failure_is_reported_critical [OF b c f] c
  show ?thesis by simp
qed

section \<open>The pattern of the suffix directive\<close>

lemma first_match_None_iff: "first_match f xs = None \<longleftrightarrow> (\<forall>x \<in> set xs. f x = None)"
  by (induction xs) (auto split: option.splits)

lemma first_match_SomeD: "first_match f xs = Some y \<Longrightarrow> \<exists>x \<in> set xs. f x = Some y"
  by (induction xs) (auto split: option.splits)

lemma takeWhile_all: "(\<forall>c \<in> set ws. P c) \<Longrightarrow> length ws \<le> length (takeWhile P (ws @ r))"
  by (induction ws) auto

lemma find_Some_mem: "find P xs = Some x \<Longrightarrow> x \<in> set xs \<and> P x"
  by (induction xs) (auto split: if_splits)

lemma re_suffix_value_Some_iff:
  "(\<exists>v. re_suffix_value r = Some v) \<longleftrightarrow>
     (\<exists>ws v post. r = ws @ v @ post \<and> (\<forall>c \<in> set ws. is_space c) \<and>
        v \<noteq> [] \<and> (\<forall>c \<in> set v. \<not> is_newline c))"
  (is "?l \<longleftrightarrow> ?r")
proof
  assume ?l
  then obtain k where "find (\<lambda>k. takeWhile (\<lambda>c. \<not> is_newline c) (drop k r) \<noteq> [])
          (rev [0 ..< Suc (length (takeWhile is_space r))]) = Some k"
    unfolding re_suffix_value_def by blast
  from find_Some_mem [OF this]
  have k: "k \<le> length (takeWhile is_space r)"
    and ne: "takeWhile (\<lambda>c. \<not> is_newline c) (drop k r) \<noteq> []"
    by (auto simp del: upt_Suc)
  let ?v = "takeWhile (\<lambda>c. \<not> is_newline c) (drop k r)"
  have "r = take k r @ ?v @ dropWhile (\<lambda>c. \<not> is_newline c) (drop k r)" by simp
  moreover have "\<forall>c \<in> set (take k r). is_space c"
  proof
    fix c assume "c \<in> set (take k r)"
    moreover have "take k r = take k (takeWhile is_space r)"
      using k by (metis append_eq_conv_conj takeWhile_dropWhile_id take_append take_all_iff
          diff_is_0_eq take0 append_Nil2 take_take min.absorb1 length_takeWhile_le)
    ultimately have "c \<in> set (takeWhile is_space r)" by (metis in_set_takeD)
    then show "is_space c" by (rule set_takeWhileD [THEN conjunct2])
  qed
  moreover have "\<forall>c \<in> set ?v. \<not> is_newline c" by (auto dest: set_takeWhileD)
  ultimately show ?r using ne by blast
next
  assume ?r
  then obtain ws v post where r: "r = ws @ v @ post" and ws: "\<forall>c \<in> set ws. is_space c"
    and v: "v \<noteq> []" "\<forall>c \<in> set v. \<not> is_newline c" by blast
  from ws have le: "length ws \<le> length (takeWhile is_space r)"
    unfolding r by (rule takeWhile_all)
  from v obtain c v' where cv: "v = c # v'" "\<not> is_newline c" by (cases v) auto
  have "drop (length ws) r = v @ post" by (simp add: r)
  then have "takeWhile (\<lambda>c. \<not> is_newline c) (drop (length ws) r) \<noteq> []"
    using cv by simp
  with le have "\<exists>k \<in> set (rev [0 ..< Suc (length (takeWhile is_space r))]).
      takeWhile (\<lambda>c. \<not> is_newline c) (drop k r) \<noteq> []"
    by (intro bexI [of _ "length ws"]) auto
  then have "find (\<lambda>k. takeWhile (\<lambda>c. \<not> is_newline c) (drop k r) \<noteq> [])
          (rev [0 ..< Suc (length (takeWhile is_space r))]) \<noteq> None"
    unfolding find_None_iff by blast
  then show ?l unfolding re_suffix_value_def by blast
qed

lemma re_suffix_value_SomeD:
  assumes "re_suffix_value r = Some v"
  shows "v \<noteq> [] \<and> (\<forall>c \<in> set v. \<not> is_newline c)"
proof -
  from assms obtain k
    where f: "find (\<lambda>k. takeWhile (\<lambda>c. \<not> is_newline c) (drop k r) \<noteq> [])
          (rev [0 ..< Suc (length (takeWhile is_space r))]) = Some k"
      and v: "v = takeWhile (\<lambda>c. \<not> is_newline c) (drop k r)"
    unfolding re_suffix_value_def by blast
  from find_Some_mem [OF f] have "v \<noteq> []" by (simp add: v)
  moreover have "\<forall>c \<in> set v. \<not> is_newline c"
    unfolding v by (auto dest: set_takeWhileD)
  ultimately show ?thesis by blast
qed

lemma strip_prefix_None_iff: "strip_prefix p s = None \<longleftrightarrow> \<not> prefix p s"
  by (induction p s rule: strip_prefix.induct) auto

lemma dropWhile_spaces_then:
  "(\<forall>c \<in> set ws. is_space c) \<Longrightarrow> \<not> is_space x \<Longrightarrow> dropWhile is_space (ws @ x # r) = x # r"
  by (simp add: dropWhile_append)

lemma re_suffix_at_Some_iff:
  "(\<exists>v. re_suffix_at t = Some v) \<longleftrightarrow>
     (\<exists>ws1 ws2 v post.
        t = ''sops_unencrypted_suffix'' @ ws1 @ ''='' @ ws2 @ v @ post \<and>
        (\<forall>c \<in> set ws1. is_space c) \<and> (\<forall>c \<in> set ws2. is_space c) \<and>
        v \<noteq> [] \<and> (\<forall>c \<in> set v. \<not> is_newline c))"
  (is "?l \<longleftrightarrow> ?r")
proof
  assume ?l
  then obtain v where v: "re_suffix_at t = Some v" ..
  then obtain r where r: "strip_prefix ''sops_unencrypted_suffix'' t = Some r"
    unfolding re_suffix_at_def by (auto split: option.splits)
  with v obtain r' where r': "dropWhile is_space r = CHR ''='' # r'"
    and val: "re_suffix_value r' = Some v"
    unfolding re_suffix_at_def by (auto split: list.splits if_splits)
  from r have t: "t = ''sops_unencrypted_suffix'' @ r"
    unfolding strip_prefix_Some_iff .
  have "r = takeWhile is_space r @ dropWhile is_space r" by simp
  with r' have r_eq: "r = takeWhile is_space r @ ''='' @ r'" by simp
  have sp: "\<forall>c \<in> set (takeWhile is_space r). is_space c" by (auto dest: set_takeWhileD)
  from val have "\<exists>v. re_suffix_value r' = Some v" ..
  then obtain ws2 v' post where "r' = ws2 @ v' @ post" "\<forall>c \<in> set ws2. is_space c"
    "v' \<noteq> []" "\<forall>c \<in> set v'. \<not> is_newline c"
    unfolding re_suffix_value_Some_iff by blast
  with t r_eq sp show ?r by metis
next
  assume ?r
  then obtain ws1 ws2 v post
    where t: "t = ''sops_unencrypted_suffix'' @ (ws1 @ ''='' @ ws2 @ v @ post)"
      and ws1: "\<forall>c \<in> set ws1. is_space c" and ws2: "\<forall>c \<in> set ws2. is_space c"
      and v: "v \<noteq> []" "\<forall>c \<in> set v. \<not> is_newline c" by auto
  have 1: "strip_prefix ''sops_unencrypted_suffix'' t = Some (ws1 @ ''='' @ ws2 @ v @ post)"
    unfolding strip_prefix_Some_iff by (rule t)
  have "\<not> is_space (CHR ''='')" by (simp add: is_space_def)
  with ws1 have 2: "dropWhile is_space (ws1 @ ''='' @ ws2 @ v @ post) = CHR ''='' # (ws2 @ v @ post)"
    by (simp add: dropWhile_append)
  from ws2 v have "\<exists>x. re_suffix_value (ws2 @ v @ post) = Some x"
    unfolding re_suffix_value_Some_iff by blast
  then obtain x where "re_suffix_value (ws2 @ v @ post) = Some x" ..
  with 1 2 have "re_suffix_at t = Some x"
    unfolding re_suffix_at_def by simp
  then show ?l ..
qed

lemma first_match_Some_iff:
  "(\<exists>y. first_match f xs = Some y) \<longleftrightarrow> (\<exists>x \<in> set xs. \<exists>y. f x = Some y)"
  by (induction xs) (auto split: option.splits)

lemma re_suffix_directive_Some_iff: "(\<exists>v. re_suffix_directive s = Some v) \<longleftrightarrow> directive_in s"
  (is "?l \<longleftrightarrow> ?r")
proof
  assume ?l
  then obtain t where t: "t \<in> set (tails s)" and "\<exists>v. re_suffix_at t = Some v"
    unfolding re_suffix_directive_def first_match_Some_iff by blast
  then obtain ws1 ws2 v post
    where *: "t = ''sops_unencrypted_suffix'' @ ws1 @ ''='' @ ws2 @ v @ post"
      "\<forall>c \<in> set ws1. is_space c" "\<forall>c \<in> set ws2. is_space c"
      "v \<noteq> []" "\<forall>c \<in> set v. \<not> is_newline c"
    unfolding re_suffix_at_Some_iff by blast
  from t obtain pre where "s = pre @ t"
    unfolding set_tails suffix_def by blast
  with * show ?r unfolding directive_in_def by blast
next
  assume ?r
  then obtain pre ws1 ws2 v post
    where s: "s = pre @ (''sops_unencrypted_suffix'' @ ws1 @ ''='' @ ws2 @ v @ post)"
      and *: "\<forall>c \<in> set ws1. is_space c" "\<forall>c \<in> set ws2. is_space c"
      "v \<noteq> []" "\<forall>c \<in> set v. \<not> is_newline c"
    unfolding directive_in_def by auto
  from * have "\<exists>x. re_suffix_at (''sops_unencrypted_suffix'' @ ws1 @ ''='' @ ws2 @ v @ post) = Some x"
    unfolding re_suffix_at_Some_iff by blast
  moreover from s have "''sops_unencrypted_suffix'' @ ws1 @ ''='' @ ws2 @ v @ post \<in> set (tails s)"
    unfolding set_tails suffix_def by blast
  ultimately show ?l
    unfolding re_suffix_directive_def first_match_Some_iff by blast
qed

lemma re_suffix_directive_SomeD:
  assumes "re_suffix_directive s = Some v"
  shows "v \<noteq> [] \<and> (\<forall>c \<in> set v. \<not> is_newline c)"
proof -
  from assms obtain t where "re_suffix_at t = Some v"
    unfolding re_suffix_directive_def by (blast dest: first_match_SomeD)
  then obtain r where "re_suffix_value r = Some v"
    unfolding re_suffix_at_def by (auto split: option.splits list.splits if_splits)
  then show ?thesis by (rule re_suffix_value_SomeD)
qed

lemma basename_no_suffix: "basename p [] = last_portion p"
  by (simp add: basename_def)

lemma take_suffix_append: "suffix s p \<Longrightarrow> take (length p - length s) p @ s = p"
  by (auto simp: suffix_def)

lemma last_portion_suffix:
  assumes "p \<noteq> []" and "last p \<noteq> CHR ''/''"
  shows "suffix (last_portion p) p"
proof -
  from assms have "hd (rev p) \<noteq> CHR ''/''" "rev p \<noteq> []"
    by (simp_all add: hd_rev)
  then have "dropWhile (\<lambda>c. c = CHR ''/'') (rev p) = rev p"
    by (cases "rev p") auto
  then have lp: "last_portion p = rev (takeWhile (\<lambda>c. c \<noteq> CHR ''/'') (rev p))"
    by (simp add: last_portion_def)
  have "rev p = takeWhile (\<lambda>c. c \<noteq> CHR ''/'') (rev p) @ dropWhile (\<lambda>c. c \<noteq> CHR ''/'') (rev p)"
    by simp
  then have "p = rev (dropWhile (\<lambda>c. c \<noteq> CHR ''/'') (rev p)) @ last_portion p"
    unfolding lp by (metis rev_append rev_rev_ident)
  then show ?thesis unfolding suffix_def by blast
qed

lemma dir_part_basename:
  assumes "p \<noteq> []" and "last p \<noteq> CHR ''/''"
  shows "take (length p - length (basename p [])) p @ basename p [] = p"
  unfolding basename_no_suffix
  by (rule take_suffix_append) (rule last_portion_suffix [OF assms])

lemma length_last_portion: "length (last_portion p) \<le> length p"
proof -
  have "length (last_portion p) \<le> length (dropWhile (\<lambda>c. c = CHR ''/'') (rev p))"
    unfolding last_portion_def by (simp add: length_takeWhile_le)
  also have "\<dots> \<le> length (rev p)" by (rule length_dropWhile_le)
  finally show ?thesis by simp
qed

lemma extname_suffix:
  assumes "extname p \<noteq> []"
  shows "suffix (extname p) (last_portion p) \<and> extname p \<noteq> last_portion p"
proof -
  let ?b = "last_portion p"
  let ?after = "takeWhile (\<lambda>c. c \<noteq> CHR ''.'') (rev ?b)"
  from assms have dot: "CHR ''.'' \<in> set ?b" and len: "Suc (length ?after) \<noteq> length ?b"
    and ext: "extname p = CHR ''.'' # rev ?after"
    by (auto simp: extname_def Let_def split: if_splits)
  from dot have "dropWhile (\<lambda>c. c \<noteq> CHR ''.'') (rev ?b) \<noteq> []" by simp
  then obtain d rest where d: "dropWhile (\<lambda>c. c \<noteq> CHR ''.'') (rev ?b) = d # rest"
    by (cases "dropWhile (\<lambda>c. c \<noteq> CHR ''.'') (rev ?b)") auto
  then have "d = CHR ''.''" using hd_dropWhile [of "\<lambda>c. c \<noteq> CHR ''.''" "rev ?b"] by auto
  with d have "rev ?b = ?after @ CHR ''.'' # rest"
    by (metis takeWhile_dropWhile_id)
  then have "?b = rev rest @ (CHR ''.'' # rev ?after)"
    by (metis rev_append rev_rev_ident rev.simps(2) append_Cons append_Nil append_assoc)
  with ext have b: "?b = rev rest @ extname p" by simp
  then have "suffix (extname p) ?b" unfolding suffix_def by blast
  moreover from b len ext have "extname p \<noteq> ?b"
    by (metis length_Cons length_rev)
  ultimately show ?thesis by blast
qed

lemma basename_extname: "basename p (extname p) @ extname p = last_portion p"
proof (cases "extname p = []")
  case True
  then show ?thesis by (simp add: basename_def)
next
  case False
  from extname_suffix [OF False]
  have sfx: "suffix (extname p) (last_portion p)" and ne: "extname p \<noteq> last_portion p"
    by blast+
  from sfx have "length (extname p) \<le> length (last_portion p)" by (rule suffix_length_le)
  with length_last_portion [of p] have le: "length (extname p) \<le> length p" by simp
  have "extname p \<noteq> p"
  proof
    assume "extname p = p"
    with sfx have "length p \<le> length (last_portion p)" by (metis suffix_length_le)
    with length_last_portion [of p] have "length (last_portion p) = length p" by simp
    with sfx \<open>extname p = p\<close> have "extname p = last_portion p"
      by (auto simp: suffix_def)
    with ne show False ..
  qed
  with le False sfx ne
  have "basename p (extname p) = take (length (last_portion p) - length (extname p)) (last_portion p)"
    by (simp add: basename_def Let_def)
  with take_suffix_append [OF sfx] show ?thesis by simp
qed

lemma prefix_append_short: "prefix k (pre @ r) \<Longrightarrow> length k \<le> length pre \<Longrightarrow> prefix k pre"
  by (auto simp: prefix_append)

text \<open>A word whose last character occurs nowhere else in it has no proper border.\<close>

lemma no_border:
  assumes p: "prefix k (pre @ k @ rest)" and pre: "pre \<noteq> []" and k: "k \<noteq> []"
    and l: "last k \<notin> set (butlast k)"
  shows "length k \<le> length pre"
proof (rule ccontr)
  assume "\<not> length k \<le> length pre"
  then have lt: "length pre < length k" by simp
  from pre have n0: "0 < length pre" by simp
  let ?j = "length k - 1 - length pre"
  from p obtain z where z: "pre @ k @ rest = k @ z"
    unfolding prefix_def by blast
  have "(pre @ k @ rest) ! (length k - 1) = (k @ rest) ! ?j"
    using lt by (simp add: nth_append)
  also have "\<dots> = k ! ?j"
    using lt k by (simp add: nth_append)
  finally have "(k @ z) ! (length k - 1) = k ! ?j" using z by simp
  moreover have "(k @ z) ! (length k - 1) = last k"
    using k by (simp add: nth_append last_conv_nth)
  ultimately have eq: "k ! ?j = last k" by simp
  have j: "?j < length (butlast k)" using n0 lt unfolding length_butlast by arith
  then have "butlast k ! ?j \<in> set (butlast k)" by (rule nth_mem)
  moreover have "butlast k ! ?j = k ! ?j" using j by (simp add: nth_butlast)
  ultimately show False using eq l by simp
qed

lemma key_not_shifted:
  assumes "prefix ''sops_unencrypted_suffix'' (pre @ ''sops_unencrypted_suffix'' @ rest)"
    and "pre \<noteq> []"
  shows "sublist ''sops_unencrypted_suffix'' pre"
proof -
  have "last ''sops_unencrypted_suffix'' \<notin> set (butlast ''sops_unencrypted_suffix'')"
    by simp
  with assms have "length ''sops_unencrypted_suffix'' \<le> length pre"
    by (intro no_border [where rest = rest]) simp_all
  with assms(1) have "prefix ''sops_unencrypted_suffix'' pre"
    by (rule prefix_append_short)
  then show ?thesis by (rule prefix_imp_sublist)
qed

lemma first_match_skip:
  assumes "\<And>a b. pre = a @ b \<Longrightarrow> b \<noteq> [] \<Longrightarrow> f (b @ s) = None"
  shows "first_match f (tails (pre @ s)) = first_match f (tails s)"
  using assms
proof (induction pre)
  case Nil
  then show ?case by simp
next
  case (Cons c pre)
  have "f ((c # pre) @ s) = None"
    by (rule Cons.prems [of "[]"]) simp_all
  moreover have "first_match f (tails (pre @ s)) = first_match f (tails s)"
  proof (rule Cons.IH)
    fix a b assume "pre = a @ b" "b \<noteq> []"
    then show "f (b @ s) = None" using Cons.prems [of "c # a" b] by simp
  qed
  ultimately show ?case by simp
qed

lemma tails_first: "tails s = s # tl (tails s)"
  by (cases s) simp_all

lemma re_suffix_at_None_iff: "re_suffix_at t = None \<longleftrightarrow> \<not> directive_at t"
proof -
  have "(\<exists>v. re_suffix_at t = Some v) \<longleftrightarrow> directive_at t"
    unfolding re_suffix_at_Some_iff directive_at_def ..
  then show ?thesis by (cases "re_suffix_at t") auto
qed

lemma directive_in_iff: "directive_in s \<longleftrightarrow> (\<exists>n \<le> length s. directive_at (drop n s))"
proof
  assume "directive_in s"
  then obtain pre ws1 ws2 v post
    where s: "s = pre @ (''sops_unencrypted_suffix'' @ ws1 @ ''='' @ ws2 @ v @ post)"
      and *: "\<forall>c \<in> set ws1. is_space c" "\<forall>c \<in> set ws2. is_space c"
      "v \<noteq> []" "\<forall>c \<in> set v. \<not> is_newline c"
    unfolding directive_in_def by auto
  from * have "directive_at (''sops_unencrypted_suffix'' @ ws1 @ ''='' @ ws2 @ v @ post)"
    unfolding directive_at_def by blast
  then have "directive_at (drop (length pre) s)" unfolding s by simp
  moreover have "length pre \<le> length s" unfolding s by simp
  ultimately show "\<exists>n \<le> length s. directive_at (drop n s)" by blast
next
  assume "\<exists>n \<le> length s. directive_at (drop n s)"
  then obtain n where "directive_at (drop n s)" by blast
  then obtain ws1 ws2 v post
    where d: "drop n s = ''sops_unencrypted_suffix'' @ ws1 @ ''='' @ ws2 @ v @ post"
      and *: "\<forall>c \<in> set ws1. is_space c" "\<forall>c \<in> set ws2. is_space c"
      "v \<noteq> []" "\<forall>c \<in> set v. \<not> is_newline c"
    unfolding directive_at_def by blast
  have "s = take n s @ drop n s" by simp
  then have "s = take n s @ ''sops_unencrypted_suffix'' @ ws1 @ ''='' @ ws2 @ v @ post"
    unfolding d .
  with * show "directive_in s" unfolding directive_in_def by blast
qed

lemma re_suffix_directive_None_iff:
  "re_suffix_directive s = None \<longleftrightarrow> (\<forall>n \<le> length s. \<not> directive_at (drop n s))"
proof -
  have "re_suffix_directive s = None \<longleftrightarrow> \<not> directive_in s"
    unfolding re_suffix_directive_Some_iff [symmetric] by simp
  then show ?thesis unfolding directive_in_iff by blast
qed

lemma re_suffix_directive_leftmost:
  assumes first: "\<forall>n < length pre. \<not> directive_at (drop n (pre @ t))"
    and at: "re_suffix_at t = Some v"
  shows "re_suffix_directive (pre @ t) = Some v"
proof -
  have skip: "first_match re_suffix_at (tails (pre @ t)) = first_match re_suffix_at (tails t)"
  proof (rule first_match_skip)
    fix a b assume ab: "pre = a @ b" and b: "b \<noteq> []"
    then have "length a < length pre" by simp
    with first have "\<not> directive_at (drop (length a) (pre @ t))" by blast
    then have "\<not> directive_at (b @ t)" unfolding ab by simp
    then show "re_suffix_at (b @ t) = None" unfolding re_suffix_at_None_iff .
  qed
  have "first_match re_suffix_at (tails t) = Some v"
    by (subst tails_first) (simp only: first_match.simps at option.case)
  with skip show ?thesis
    unfolding re_suffix_directive_def by (simp only:)
qed

lemma re_suffix_at_key:
  assumes "\<forall>c \<in> set ws1. is_space c"
  shows "re_suffix_at (''sops_unencrypted_suffix'' @ ws1 @ ''='' @ r) = re_suffix_value r"
proof -
  have 1: "strip_prefix ''sops_unencrypted_suffix'' (''sops_unencrypted_suffix'' @ ws1 @ ''='' @ r)
             = Some (ws1 @ ''='' @ r)"
    unfolding strip_prefix_Some_iff ..
  have "\<not> is_space (CHR ''='')" by (simp add: is_space_def)
  with assms have 2: "dropWhile is_space (ws1 @ ''='' @ r) = CHR ''='' # r"
    using dropWhile_spaces_then [of ws1 "CHR ''=''" r] by simp
  show ?thesis
    unfolding re_suffix_at_def
    by (simp only: 1 2 option.case list.case refl if_True)
qed

lemma newline_is_space: "is_newline c \<Longrightarrow> is_space c"
  by (auto simp: is_newline_def is_space_def)

lemma re_suffix_value_line:
  assumes ws: "\<forall>c \<in> set ws2. is_space c"
    and line: "line \<noteq> []" "\<not> is_space (hd line)" "\<forall>c \<in> set line. \<not> is_newline c"
    and post: "post = [] \<or> is_newline (hd post)"
  shows "re_suffix_value (ws2 @ line @ post) = Some line"
proof -
  from line obtain x xs where l: "line = x # xs" and x: "\<not> is_space x" by (cases line) auto
  have sp: "takeWhile is_space (ws2 @ line @ post) = ws2"
    using ws x unfolding l by (simp add: takeWhile_append2)
  have "takeWhile (\<lambda>c. \<not> is_newline c) post = []"
    using post by (cases post) auto
  with line(3) have tw: "takeWhile (\<lambda>c. \<not> is_newline c) (line @ post) = line"
    by (simp add: takeWhile_append2)
  have r: "rev [0 ..< Suc (length ws2)] = length ws2 # rev [0 ..< length ws2]" by simp
  show ?thesis
    unfolding re_suffix_value_def sp r using tw line(1) by simp
qed

lemma trim_value:
  assumes "sfx \<noteq> []" "\<not> is_space (hd sfx)" "\<not> is_space (last sfx)" "\<forall>c \<in> set ws3. is_space c"
  shows "trim (sfx @ ws3) = sfx"
proof -
  from assms(1,2) have 1: "dropWhile is_space (sfx @ ws3) = sfx @ ws3"
    by (cases sfx) simp_all
  from assms(1,3) have "dropWhile is_space (rev sfx) = rev sfx"
    by (cases "rev sfx") (auto simp: last_rev [symmetric] simp del: last_rev)
  moreover have "dropWhile is_space (rev ws3 @ rev sfx) = dropWhile is_space (rev sfx)"
    by (rule dropWhile_append2) (use assms(4) in simp)
  ultimately have 2: "dropWhile is_space (rev ws3 @ rev sfx) = rev sfx"
    by (simp only:)
  show ?thesis unfolding trim_def 1 by (simp add: 2)
qed

lemma trim_spaces:
  assumes "\<forall>c \<in> set v. is_space c"
  shows "trim v = []"
proof -
  from assms have "dropWhile is_space v = []" unfolding dropWhile_eq_Nil_conv .
  then show ?thesis unfolding trim_def by (simp only: rev.simps dropWhile.simps)
qed

lemma re_suffix_value_blank:
  assumes "\<forall>c \<in> set ws. is_space c" and "\<exists>c \<in> set ws. \<not> is_newline c"
  shows "\<exists>v. re_suffix_value ws = Some v \<and> (\<forall>c \<in> set v. is_space c)"
proof -
  from assms(2) obtain a c b where ws: "ws = a @ c # b" and c: "\<not> is_newline c"
    by (auto simp: in_set_conv_decomp)
  from assms(1) ws have "\<forall>x \<in> set a. is_space x" by simp
  with ws c have "\<exists>ws' v post. ws = ws' @ v @ post \<and> (\<forall>c \<in> set ws'. is_space c) \<and>
        v \<noteq> [] \<and> (\<forall>c \<in> set v. \<not> is_newline c)"
    by (intro exI [of _ a] exI [of _ "[c]"] exI [of _ b]) simp
  then obtain v where v: "re_suffix_value ws = Some v"
    unfolding re_suffix_value_Some_iff [symmetric] ..
  then obtain k where "v = takeWhile (\<lambda>c. \<not> is_newline c) (drop k ws)"
    unfolding re_suffix_value_def by blast
  then have "set v \<subseteq> set (drop k ws)" by (auto dest: set_takeWhileD)
  also have "\<dots> \<subseteq> set ws" by (rule set_drop_subset)
  finally have "set v \<subseteq> set ws" .
  with assms(1) v show ?thesis by blast
qed

text \<open>The three cases of the suffix.\<close>

lemma unencrypted_suffix_value:
  assumes p: "plaintext = pre @ ''sops_unencrypted_suffix'' @ ws1 @ ''='' @ ws2 @ sfx @ ws3 @ post"
    and first: "\<forall>n < length pre. \<not> directive_at (drop n plaintext)"
    and ws: "\<forall>c \<in> set ws1. is_space c" "\<forall>c \<in> set ws2. is_space c"
    and sfx: "sfx \<noteq> []" "\<not> is_space (hd sfx)" "\<not> is_space (last sfx)"
      "\<forall>c \<in> set sfx. \<not> is_newline c"
    and ws3: "\<forall>c \<in> set ws3. is_space c \<and> \<not> is_newline c"
    and post: "post = [] \<or> is_newline (hd post)"
  shows "unencrypted_suffix plaintext = sfx"
proof -
  let ?line = "sfx @ ws3"
  from sfx have l: "?line \<noteq> []" "\<not> is_space (hd ?line)" by simp_all
  from sfx(4) ws3 have nl: "\<forall>c \<in> set ?line. \<not> is_newline c" by auto
  have "re_suffix_value (ws2 @ ?line @ post) = Some ?line"
    using ws(2) l nl post by (rule re_suffix_value_line)
  then have at: "re_suffix_at (''sops_unencrypted_suffix'' @ ws1 @ ''='' @ ws2 @ ?line @ post)
                   = Some ?line"
    unfolding re_suffix_at_key [OF ws(1)] .
  have p': "plaintext = pre @ (''sops_unencrypted_suffix'' @ ws1 @ ''='' @ ws2 @ ?line @ post)"
    unfolding p by (simp only: append_assoc)
  have "re_suffix_directive plaintext = Some ?line"
    unfolding p' by (rule re_suffix_directive_leftmost [OF _ at]) (use first in \<open>unfold p'\<close>)
  moreover from ws3 have "\<forall>c \<in> set ws3. is_space c" by blast
  with sfx(1-3) have "trim ?line = sfx" by (rule trim_value)
  ultimately show ?thesis unfolding unencrypted_suffix_def by (simp only: option.case)
qed

lemma unencrypted_suffix_blank:
  assumes p: "plaintext = pre @ ''sops_unencrypted_suffix'' @ ws1 @ ''='' @ ws"
    and first: "\<forall>n < length pre. \<not> directive_at (drop n plaintext)"
    and ws: "\<forall>c \<in> set ws1. is_space c" "\<forall>c \<in> set ws. is_space c"
    and some: "\<exists>c \<in> set ws. \<not> is_newline c"
  shows "unencrypted_suffix plaintext = []"
proof -
  from re_suffix_value_blank [OF ws(2) some]
  obtain v where v: "re_suffix_value ws = Some v" and sp: "\<forall>c \<in> set v. is_space c" by blast
  from v have at: "re_suffix_at (''sops_unencrypted_suffix'' @ ws1 @ ''='' @ ws) = Some v"
    unfolding re_suffix_at_key [OF ws(1)] .
  have "re_suffix_directive plaintext = Some v"
    unfolding p by (rule re_suffix_directive_leftmost [OF _ at]) (use first in \<open>unfold p\<close>)
  with trim_spaces [OF sp] show ?thesis unfolding unencrypted_suffix_def by (simp only: option.case)
qed

lemma unencrypted_suffix_default:
  assumes "\<forall>n \<le> length plaintext. \<not> directive_at (drop n plaintext)"
  shows "unencrypted_suffix plaintext = ''_decrypted''"
proof -
  from assms have "re_suffix_directive plaintext = None"
    unfolding re_suffix_directive_None_iff .
  then show ?thesis unfolding unencrypted_suffix_def by (simp only: option.case)
qed

lemma no_directive_before_key:
  assumes "\<not> sublist ''sops_unencrypted_suffix'' pre"
  shows "\<forall>n < length pre. \<not> directive_at (drop n (pre @ ''sops_unencrypted_suffix'' @ rest))"
proof (intro allI impI notI)
  fix n assume n: "n < length pre"
    and d: "directive_at (drop n (pre @ ''sops_unencrypted_suffix'' @ rest))"
  let ?b = "drop n pre"
  from n have b: "?b \<noteq> []" by simp
  from n d have "directive_at (?b @ ''sops_unencrypted_suffix'' @ rest)" by simp
  then have "prefix ''sops_unencrypted_suffix'' (?b @ ''sops_unencrypted_suffix'' @ rest)"
    unfolding directive_at_def prefix_def by auto
  from key_not_shifted [OF this b] have "sublist ''sops_unencrypted_suffix'' ?b" .
  moreover have "sublist ?b pre" by (rule suffix_imp_sublist) (rule suffix_drop)
  ultimately have "sublist ''sops_unencrypted_suffix'' pre"
    by (rule sublist_order.order_trans)
  with assms show False ..
qed

text \<open>The two shapes of a directive.\<close>

lemma directive_at_cases:
  assumes "directive_at t"
  shows "(\<exists>ws1 ws2 sfx ws3 post.
            t = ''sops_unencrypted_suffix'' @ ws1 @ ''='' @ ws2 @ sfx @ ws3 @ post \<and>
            (\<forall>c \<in> set ws1. is_space c) \<and> (\<forall>c \<in> set ws2. is_space c) \<and>
            sfx \<noteq> [] \<and> \<not> is_space (hd sfx) \<and> \<not> is_space (last sfx) \<and>
            (\<forall>c \<in> set sfx. \<not> is_newline c) \<and>
            (\<forall>c \<in> set ws3. is_space c \<and> \<not> is_newline c) \<and>
            (post = [] \<or> is_newline (hd post)))
       \<or> (\<exists>ws1 ws.
            t = ''sops_unencrypted_suffix'' @ ws1 @ ''='' @ ws \<and>
            (\<forall>c \<in> set ws1. is_space c) \<and> (\<forall>c \<in> set ws. is_space c) \<and>
            (\<exists>c \<in> set ws. \<not> is_newline c))"
proof -
  from assms obtain ws1 ws2 v post0
    where t: "t = ''sops_unencrypted_suffix'' @ ws1 @ ''='' @ ws2 @ v @ post0"
      and ws1: "\<forall>c \<in> set ws1. is_space c" and ws2: "\<forall>c \<in> set ws2. is_space c"
      and v: "v \<noteq> []" "\<forall>c \<in> set v. \<not> is_newline c"
    unfolding directive_at_def by blast
  define r where "r = ws2 @ v @ post0"
  have t': "t = ''sops_unencrypted_suffix'' @ ws1 @ ''='' @ r" unfolding t r_def ..
  show ?thesis
  proof (cases "\<forall>c \<in> set r. is_space c")
    case True
    from v have "hd v \<in> set r" "\<not> is_newline (hd v)" unfolding r_def by simp_all
    then have ex: "\<exists>c \<in> set r. \<not> is_newline c" by blast
    have "\<exists>ws1 ws.
            t = ''sops_unencrypted_suffix'' @ ws1 @ ''='' @ ws \<and>
            (\<forall>c \<in> set ws1. is_space c) \<and> (\<forall>c \<in> set ws. is_space c) \<and>
            (\<exists>c \<in> set ws. \<not> is_newline c)"
      by (rule exI [of _ ws1], rule exI [of _ r]) (intro conjI t' ws1 True ex)
    then show ?thesis by (rule disjI2)
  next
    case False
    define w where "w = takeWhile is_space r"
    define r' where "r' = dropWhile is_space r"
    define line where "line = takeWhile (\<lambda>c. \<not> is_newline c) r'"
    define post where "post = dropWhile (\<lambda>c. \<not> is_newline c) r'"
    define sfx where "sfx = rev (dropWhile is_space (rev line))"
    define ws3 where "ws3 = rev (takeWhile is_space (rev line))"
    have r: "r = w @ r'" unfolding w_def r'_def by simp
    have r'': "r' = line @ post" unfolding line_def post_def by simp
    have w: "\<forall>c \<in> set w. is_space c" unfolding w_def by (auto dest: set_takeWhileD)
    from False have ne: "r' \<noteq> []" unfolding r'_def by (simp add: dropWhile_eq_Nil_conv)
    then have h: "\<not> is_space (hd r')" unfolding r'_def by (rule hd_dropWhile)
    then have hn: "\<not> is_newline (hd r')" using newline_is_space by blast
    from ne hn have lne: "line \<noteq> []" unfolding line_def by (cases r') simp_all
    with r'' have hl: "hd line = hd r'" by simp
    have lnl: "\<forall>c \<in> set line. \<not> is_newline c" unfolding line_def by (auto dest: set_takeWhileD)
    have post: "post = [] \<or> is_newline (hd post)"
      unfolding post_def using hd_dropWhile [of "\<lambda>c. \<not> is_newline c" r'] by blast
    have l: "line = sfx @ ws3"
      unfolding sfx_def ws3_def rev_append [symmetric] takeWhile_dropWhile_id by simp
    have ws3: "\<forall>c \<in> set ws3. is_space c" unfolding ws3_def by (auto dest: set_takeWhileD)
    have sne: "sfx \<noteq> []"
    proof
      assume "sfx = []"
      with l ws3 have "\<forall>c \<in> set line. is_space c" by simp
      with lne have "is_space (hd line)" by simp
      with h hl show False by simp
    qed
    with l hl h have hs: "\<not> is_space (hd sfx)" by simp
    from sne have "dropWhile is_space (rev line) \<noteq> []" unfolding sfx_def by simp
    then have "\<not> is_space (hd (dropWhile is_space (rev line)))" by (rule hd_dropWhile)
    moreover from sne have "last sfx = hd (dropWhile is_space (rev line))"
      unfolding sfx_def by (simp add: last_rev)
    ultimately have ls: "\<not> is_space (last sfx)" by simp
    from lnl l have snl: "\<forall>c \<in> set sfx. \<not> is_newline c"
      and ws3n: "\<forall>c \<in> set ws3. \<not> is_newline c" by simp_all
    from ws3 ws3n have ws3c: "\<forall>c \<in> set ws3. is_space c \<and> \<not> is_newline c" by blast
    have t'': "t = ''sops_unencrypted_suffix'' @ ws1 @ ''='' @ w @ sfx @ ws3 @ post"
      unfolding t' r r'' l by (simp only: append_assoc)
    have "\<exists>ws1 ws2 sfx ws3 post.
            t = ''sops_unencrypted_suffix'' @ ws1 @ ''='' @ ws2 @ sfx @ ws3 @ post \<and>
            (\<forall>c \<in> set ws1. is_space c) \<and> (\<forall>c \<in> set ws2. is_space c) \<and>
            sfx \<noteq> [] \<and> \<not> is_space (hd sfx) \<and> \<not> is_space (last sfx) \<and>
            (\<forall>c \<in> set sfx. \<not> is_newline c) \<and>
            (\<forall>c \<in> set ws3. is_space c \<and> \<not> is_newline c) \<and>
            (post = [] \<or> is_newline (hd post))"
      by (rule exI [of _ ws1], rule exI [of _ w], rule exI [of _ sfx], rule exI [of _ ws3],
          rule exI [of _ post])
        (intro conjI t'' ws1 w sne hs ls snl ws3c post)
    then show ?thesis by (rule disjI1)
  qed
qed

lemma tempPath_of_example: "tempPath_of ''a/b/secret.yaml'' ''_clear'' = ''a/b/secret_clear.yaml''"
  by code_simp

section \<open>Normalized paths\<close>

lemma split_on_no_sep: "sep \<notin> set s \<Longrightarrow> split_on sep s = [s]"
  by (induction s) auto

lemma split_on_not_Nil: "split_on sep s \<noteq> []"
  by (induction s) (auto split: list.splits)

lemma split_on_append_sep:
  "split_on sep (xs @ sep # ys) = split_on sep xs @ split_on sep ys"
  by (induction xs) (auto split: list.splits simp: split_on_not_Nil)

lemma normalize_segments_append:
  "normalize_segments a out (xs @ ys)
     = normalize_segments a (rev (normalize_segments a out xs)) ys"
  by (induction xs arbitrary: out) (auto split: list.splits)

lemma join_with_snoc:
  "join_with sep (xs @ [x]) = (if xs = [] then x else join_with sep xs @ sep @ x)"
  by (induction sep xs rule: join_with.induct) auto

lemma normalize_segments_plain:
  "seg \<noteq> [] \<Longrightarrow> seg \<noteq> ''.'' \<Longrightarrow> seg \<noteq> ''..'' \<Longrightarrow>
   normalize_segments a out [seg] = rev out @ [seg]"
  by simp

lemma last_portion_plain:
  assumes "p \<noteq> []" and "last p \<noteq> CHR ''/''"
  shows "last_portion p \<noteq> []" and "CHR ''/'' \<notin> set (last_portion p)"
    and "take (length p - length (last_portion p)) p = []
           \<or> (\<exists>d. take (length p - length (last_portion p)) p = d @ ''/'')"
proof -
  let ?P = "\<lambda>c. c \<noteq> CHR ''/''"
  from assms have hd: "hd (rev p) \<noteq> CHR ''/''" and ne: "rev p \<noteq> []"
    by (simp_all add: hd_rev)
  then have "dropWhile (\<lambda>c. c = CHR ''/'') (rev p) = rev p"
    by (cases "rev p") auto
  then have lp: "last_portion p = rev (takeWhile ?P (rev p))"
    by (simp add: last_portion_def)
  from hd ne show "last_portion p \<noteq> []"
    unfolding lp by (cases "rev p") auto
  show "CHR ''/'' \<notin> set (last_portion p)"
    unfolding lp by (auto dest: set_takeWhileD)
  have rp: "rev p = takeWhile ?P (rev p) @ dropWhile ?P (rev p)" by simp
  then have p: "p = rev (dropWhile ?P (rev p)) @ last_portion p"
    unfolding lp by (metis rev_append rev_rev_ident)
  then have dir: "take (length p - length (last_portion p)) p = rev (dropWhile ?P (rev p))"
    by (metis append_eq_conv_conj length_append add_diff_cancel_right')
  show "take (length p - length (last_portion p)) p = []
           \<or> (\<exists>d. take (length p - length (last_portion p)) p = d @ ''/'')"
  proof (cases "dropWhile ?P (rev p)")
    case Nil
    then show ?thesis unfolding dir by simp
  next
    case (Cons c r)
    with hd_dropWhile [of ?P "rev p"] have "c = CHR ''/''" by auto
    with Cons show ?thesis unfolding dir by simp
  qed
qed

lemma normalize_plain_name:
  assumes "name \<noteq> []" and "CHR ''/'' \<notin> set name"
  shows "normalize name = name"
proof -
  from assms have hd: "hd name \<noteq> CHR ''/''" and lst: "last name \<noteq> CHR ''/''"
    by (metis hd_in_set, metis last_in_set)
  have sp: "split_on (CHR ''/'') name = [name]"
    using assms(2) by (rule split_on_no_sep)
  show ?thesis
  proof (cases "name = ''.''")
    case True
    then show ?thesis by (simp add: normalize_def normalizeString_def)
  next
    case False
    with assms(1) have "normalizeString name True = name"
      unfolding normalizeString_def sp by simp
    with assms(1) hd lst show ?thesis
      by (simp add: normalize_def Let_def)
  qed
qed

lemma normalize_under_dir:
  assumes rest: "rest = [] \<or> rest = ''/''"
    and seg: "seg \<noteq> []" "CHR ''/'' \<notin> set seg" "seg \<noteq> ''.''" "seg \<noteq> ''..''"
  shows "normalize (d @ ''/'' @ rest @ seg)
           = (if hd (d @ ''/'') = CHR ''/'' then ''/'' else [])
             @ (if normalize_segments (hd (d @ ''/'') \<noteq> CHR ''/'') [] (split_on (CHR ''/'') d) = [] then []
                else join_with ''/'' (normalize_segments (hd (d @ ''/'') \<noteq> CHR ''/'') []
                       (split_on (CHR ''/'') d)) @ ''/'')
             @ seg"
proof -
  let ?a = "hd (d @ ''/'') \<noteq> CHR ''/''"
  let ?N0 = "normalize_segments ?a [] (split_on (CHR ''/'') d)"
  let ?p = "d @ ''/'' @ rest @ seg"
  have hd_p: "hd ?p = hd (d @ ''/'')" by (cases d) simp_all
  from seg have "last seg \<noteq> CHR ''/''" by (metis last_in_set)
  with seg(1) have last_p: "last ?p \<noteq> CHR ''/''" by simp
  have sp_seg: "split_on (CHR ''/'') seg = [seg]"
    using seg(2) by (rule split_on_no_sep)
  have sp: "split_on (CHR ''/'') ?p = split_on (CHR ''/'') d @ split_on (CHR ''/'') (rest @ seg)"
    using split_on_append_sep [of "CHR ''/''" d "rest @ seg"] by simp
  have tail: "normalize_segments ?a (rev ?N0) (split_on (CHR ''/'') (rest @ seg)) = ?N0 @ [seg]"
    using rest seg sp_seg by auto
  have "normalize_segments ?a [] (split_on (CHR ''/'') ?p) = ?N0 @ [seg]"
    unfolding sp normalize_segments_append tail ..
  then have q: "normalizeString ?p ?a
                  = (if ?N0 = [] then seg else join_with ''/'' ?N0 @ ''/'' @ seg)"
    by (simp add: normalizeString_def join_with_snoc)
  with seg(1) have qne: "normalizeString ?p ?a \<noteq> []" by simp
  have pne: "?p \<noteq> []" by simp
  have "normalize ?p = (if hd ?p = CHR ''/'' then ''/'' @ normalizeString ?p (hd ?p \<noteq> CHR ''/'')
                          else normalizeString ?p (hd ?p \<noteq> CHR ''/''))"
    unfolding normalize_def Let_def using pne last_p qne hd_p by simp
  then show ?thesis
    unfolding hd_p q by simp
qed

lemma normalize_dir_name:
  assumes norm: "normalize (d @ ''/'' @ b) = d @ ''/'' @ b"
    and b: "b \<noteq> []" "CHR ''/'' \<notin> set b" "b \<noteq> ''.''" "b \<noteq> ''..''"
    and n: "name \<noteq> []" "CHR ''/'' \<notin> set name" "name \<noteq> ''.''" "name \<noteq> ''..''"
  shows "normalize ((d @ ''/'') @ ''/'' @ name) = d @ ''/'' @ name"
proof -
  define X where "X = (if hd (d @ ''/'') = CHR ''/'' then ''/'' else [])
             @ (if normalize_segments (hd (d @ ''/'') \<noteq> CHR ''/'') [] (split_on (CHR ''/'') d) = [] then []
                else join_with ''/'' (normalize_segments (hd (d @ ''/'') \<noteq> CHR ''/'') []
                       (split_on (CHR ''/'') d)) @ ''/'')"
  have "normalize (d @ ''/'' @ [] @ b) = X @ b"
    unfolding X_def using normalize_under_dir [OF _ b, of "[]" d] by simp
  with norm have "X @ b = (d @ ''/'') @ b" by simp
  then have X: "X = d @ ''/''" by (simp only: append_same_eq)
  have "normalize (d @ ''/'' @ ''/'' @ name) = X @ name"
    unfolding X_def using normalize_under_dir [OF _ n, of "''/''" d] by simp
  with X show ?thesis by simp
qed

text \<open>
  For an original path that is normalized, has a file name other than \<^verbatim>\<open>.\<close> and
  \<^verbatim>\<open>..\<close>, and a suffix without separator, the join changes nothing: the working path
  is the original path with the suffix put in before the extension.
\<close>

lemma only_dots:
  assumes "b \<noteq> []" and "set b \<subseteq> {CHR ''.''}" and "length b \<le> 2"
  shows "b = ''.'' \<or> b = ''..''"
proof (cases b)
  case Nil
  with assms(1) show ?thesis by simp
next
  case (Cons c b')
  with assms show ?thesis by (cases b') auto
qed

lemma tempPath_of_normalized:
  assumes norm: "normalize p = p" and ne: "p \<noteq> []" and nl: "last p \<noteq> CHR ''/''"
    and lp: "last_portion p \<noteq> ''.''" "last_portion p \<noteq> ''..''"
    and sfx: "CHR ''/'' \<notin> set sfx"
  shows "tempPath_of p sfx
           = take (length p - length (basename p [])) p
               @ basename p (extname p) @ sfx @ extname p"
proof -
  define b where "b = last_portion p"
  define dir where "dir = take (length p - length (basename p [])) p"
  define name where "name = basename p (extname p) @ sfx @ extname p"
  have be: "basename p (extname p) @ extname p = b"
    unfolding b_def by (rule basename_extname)
  from last_portion_plain [OF ne nl]
  have b: "b \<noteq> []" "CHR ''/'' \<notin> set b"
    and dir_shape: "dir = [] \<or> (\<exists>d. dir = d @ ''/'')"
    unfolding b_def dir_def basename_no_suffix by blast+
  have p: "p = dir @ b"
    unfolding dir_def b_def using dir_part_basename [OF ne nl]
    by (simp add: basename_no_suffix)
  from be b(1) have name_ne: "name \<noteq> []"
    unfolding name_def by auto
  from be b(2) have "CHR ''/'' \<notin> set (basename p (extname p))" "CHR ''/'' \<notin> set (extname p)"
    by (metis Un_iff set_append)+
  with sfx have name_plain: "CHR ''/'' \<notin> set name"
    unfolding name_def by simp
  have nm: "name \<noteq> ''.''" "name \<noteq> ''..''"
  proof -
    have sub: "set b \<subseteq> set name" and len: "length b \<le> length name"
      unfolding name_def be [symmetric] by auto
    have False if "name = ''.'' \<or> name = ''..''"
    proof -
      from that sub len have "set b \<subseteq> {CHR ''.''}" "length b \<le> 2" by auto
      from only_dots [OF b(1) this] lp show False unfolding b_def by simp
    qed
    then show "name \<noteq> ''.''" "name \<noteq> ''..''" by blast+
  qed
  have tp: "tempPath_of p sfx = join [dir, name]"
    unfolding tempPath_of_def Let_def dir_def name_def ..
  from dir_shape show ?thesis
  proof
    assume "dir = []"
    with name_ne have "join [dir, name] = normalize name"
      by (simp add: join_def)
    with normalize_plain_name [OF name_ne name_plain] \<open>dir = []\<close> tp
    show ?thesis unfolding dir_def [symmetric] name_def [symmetric] by simp
  next
    assume "\<exists>d. dir = d @ ''/''"
    then obtain d where d: "dir = d @ ''/''" ..
    from norm p d have n: "normalize (d @ ''/'' @ b) = d @ ''/'' @ b" by simp
    from name_ne d have "join [dir, name] = normalize ((d @ ''/'') @ ''/'' @ name)"
      by (simp add: join_def)
    also have "\<dots> = d @ ''/'' @ name"
      using n b lp nm name_ne name_plain
      unfolding b_def [symmetric]
      by (intro normalize_dir_name) simp_all
    finally show ?thesis
      using tp d unfolding dir_def [symmetric] name_def [symmetric] by simp
  qed
qed

lemma normalize_example: "normalize ''a/b/secret.yaml'' = ''a/b/secret.yaml''"
  by code_simp

section \<open>Properties of decrypt-to-temp\<close>

lemma decryptToTempFile_result:
  assumes "exec_decrypt tool originalPath fs = Inr plaintext"
  shows "decryptToTempFile tool originalPath fs =
           (let tp = tempPath_of originalPath (unencrypted_suffix plaintext)
            in if tp \<in> denied fs then (Inl (EACCES tp), fs)
               else (Inr tp, fs\<lparr>files := (files fs)(tp \<mapsto> plaintext)\<rparr>))"
  using assms by (simp add: decryptToTempFile_def writeFile_def Let_def)

text \<open>
  Claim C5 ends with an example: for a plaintext that contains
  \<^verbatim>\<open>sops_unencrypted_suffix = _clear\<close> the working path of \<^verbatim>\<open>a/b/secret.yaml\<close>
  is to be \<^verbatim>\<open>a/b/secret_clear.yaml\<close>.  The value of a directive is not what the
  text of the example shows but all that stands on the line: a plaintext with the line
  \<^verbatim>\<open>sops_unencrypted_suffix = _clear_v2\<close> contains the text of the example, and its
  suffix is \<^verbatim>\<open>_clear_v2\<close>.  Nor does the directive of the example count when another
  one stands before it, be it in a comment: the leftmost one gives the suffix.  (The
  original path of the example is relative: the command, which runs in the directory
  \<^verbatim>\<open>a/b\<close>, reads the file \<^verbatim>\<open>a/b/a/b/secret.yaml\<close>.)
\<close>

theorem decryptToTempFile_example_text_other_suffix:
  "exec_decrypt clear_v2_tool ''a/b/secret.yaml'' relative_store
     = Inr ''user: x\<newline>sops_unencrypted_suffix = _clear_v2\<newline>'' \<and>
   sublist ''sops_unencrypted_suffix = _clear''
     ''user: x\<newline>sops_unencrypted_suffix = _clear_v2\<newline>'' \<and>
   fst (decryptToTempFile clear_v2_tool ''a/b/secret.yaml'' relative_store)
     = Inr ''a/b/secret_clear_v2.yaml'' \<and>
   exec_decrypt commented_tool ''a/b/secret.yaml'' relative_store
     = Inr ''# sops_unencrypted_suffix = _old\<newline>sops_unencrypted_suffix = _clear\<newline>'' \<and>
   sublist ''sops_unencrypted_suffix = _clear''
     ''# sops_unencrypted_suffix = _old\<newline>sops_unencrypted_suffix = _clear\<newline>'' \<and>
   fst (decryptToTempFile commented_tool ''a/b/secret.yaml'' relative_store)
     = Inr ''a/b/secret_old.yaml''"
  by code_simp

text \<open>
  Claim C5, amended.  Let the tool give back a plaintext.  A directive is the key, white
  space, the assignment sign, white space, in which line terminators count, and at least
  one character other than a line terminator; the suffix comes from the leftmost position
  of the plaintext at which a directive starts.  When a character other than white space
  follows the assignment sign, the suffix is the text from the first such character to
  the end of its line, without the white space at its end.  When only white space follows
  the assignment sign, up to the end of the plaintext, the suffix is empty.  (A directive
  has one of these two shapes: \<open>directive_at_cases\<close>.)  When no directive starts at any
  position, the suffix is \<^verbatim>\<open>_decrypted\<close>.
  A working path that is returned is the join of the original's directory part with base,
  suffix and extension, base and extension being the two parts of the original's last
  portion, and the working file then holds the plaintext; the path is returned whenever
  the write is not refused.  When the original path is normalized and the suffix has no
  separator, the join changes nothing: the working path is the original path with the
  suffix put in before the extension.
  For the original \<^verbatim>\<open>a/b/secret.yaml\<close> and a plaintext whose leftmost directive is
  the line \<^verbatim>\<open>sops_unencrypted_suffix = _clear\<close>, with the end of the line right after
  \<^verbatim>\<open>_clear\<close>, the result is \<^verbatim>\<open>a/b/secret_clear.yaml\<close> when the write is not
  refused.
\<close>

theorem decryptToTempFile_working_path:
  assumes plain: "exec_decrypt tool originalPath fs = Inr plaintext"
  shows
    "(\<forall>pre ws1 ws2 sfx ws3 post.
        plaintext = pre @ ''sops_unencrypted_suffix'' @ ws1 @ ''='' @ ws2 @ sfx @ ws3 @ post \<and>
        (\<forall>n < length pre. \<not> directive_at (drop n plaintext)) \<and>
        (\<forall>c \<in> set ws1. is_space c) \<and> (\<forall>c \<in> set ws2. is_space c) \<and>
        sfx \<noteq> [] \<and> \<not> is_space (hd sfx) \<and> \<not> is_space (last sfx) \<and>
        (\<forall>c \<in> set sfx. \<not> is_newline c) \<and>
        (\<forall>c \<in> set ws3. is_space c \<and> \<not> is_newline c) \<and>
        (post = [] \<or> is_newline (hd post))
        \<longrightarrow> unencrypted_suffix plaintext = sfx) \<and>
     (\<forall>pre ws1 ws.
        plaintext = pre @ ''sops_unencrypted_suffix'' @ ws1 @ ''='' @ ws \<and>
        (\<forall>n < length pre. \<not> directive_at (drop n plaintext)) \<and>
        (\<forall>c \<in> set ws1. is_space c) \<and> (\<forall>c \<in> set ws. is_space c) \<and>
        (\<exists>c \<in> set ws. \<not> is_newline c)
        \<longrightarrow> unencrypted_suffix plaintext = []) \<and>
     ((\<forall>n \<le> length plaintext. \<not> directive_at (drop n plaintext))
        \<longrightarrow> unencrypted_suffix plaintext = ''_decrypted'') \<and>
     (\<forall>w fs'. decryptToTempFile tool originalPath fs = (Inr w, fs') \<longrightarrow>
        w = join [take (length originalPath - length (basename originalPath [])) originalPath,
                  basename originalPath (extname originalPath) @ unencrypted_suffix plaintext
                    @ extname originalPath] \<and>
        files fs' w = Some plaintext) \<and>
     (tempPath_of originalPath (unencrypted_suffix plaintext) \<notin> denied fs \<longrightarrow>
        fst (decryptToTempFile tool originalPath fs)
          = Inr (tempPath_of originalPath (unencrypted_suffix plaintext))) \<and>
     (originalPath \<noteq> [] \<and> last originalPath \<noteq> CHR ''/'' \<longrightarrow>
        take (length originalPath - length (basename originalPath [])) originalPath
          @ basename originalPath (extname originalPath) @ extname originalPath = originalPath) \<and>
     (normalize originalPath = originalPath \<and> originalPath \<noteq> [] \<and>
      last originalPath \<noteq> CHR ''/'' \<and>
      last_portion originalPath \<noteq> ''.'' \<and> last_portion originalPath \<noteq> ''..'' \<and>
      CHR ''/'' \<notin> set (unencrypted_suffix plaintext) \<longrightarrow>
        tempPath_of originalPath (unencrypted_suffix plaintext)
          = take (length originalPath - length (basename originalPath [])) originalPath
              @ basename originalPath (extname originalPath) @ unencrypted_suffix plaintext
              @ extname originalPath) \<and>
     (originalPath = ''a/b/secret.yaml'' \<and> ''a/b/secret_clear.yaml'' \<notin> denied fs \<and>
      (\<exists>pre post. plaintext = pre @ ''sops_unencrypted_suffix = _clear'' @ post \<and>
         (\<forall>n < length pre. \<not> directive_at (drop n plaintext)) \<and>
         (post = [] \<or> is_newline (hd post)))
      \<longrightarrow> fst (decryptToTempFile tool originalPath fs) = Inr ''a/b/secret_clear.yaml'')"
proof (intro conjI impI allI)
  fix pre ws1 ws2 sfx ws3 post
  assume "plaintext = pre @ ''sops_unencrypted_suffix'' @ ws1 @ ''='' @ ws2 @ sfx @ ws3 @ post \<and>
        (\<forall>n < length pre. \<not> directive_at (drop n plaintext)) \<and>
        (\<forall>c \<in> set ws1. is_space c) \<and> (\<forall>c \<in> set ws2. is_space c) \<and>
        sfx \<noteq> [] \<and> \<not> is_space (hd sfx) \<and> \<not> is_space (last sfx) \<and>
        (\<forall>c \<in> set sfx. \<not> is_newline c) \<and>
        (\<forall>c \<in> set ws3. is_space c \<and> \<not> is_newline c) \<and>
        (post = [] \<or> is_newline (hd post))"
  then show "unencrypted_suffix plaintext = sfx"
    by (elim conjE) (rule unencrypted_suffix_value; assumption)
next
  fix pre ws1 ws
  assume "plaintext = pre @ ''sops_unencrypted_suffix'' @ ws1 @ ''='' @ ws \<and>
        (\<forall>n < length pre. \<not> directive_at (drop n plaintext)) \<and>
        (\<forall>c \<in> set ws1. is_space c) \<and> (\<forall>c \<in> set ws. is_space c) \<and>
        (\<exists>c \<in> set ws. \<not> is_newline c)"
  then show "unencrypted_suffix plaintext = []"
    by (elim conjE) (rule unencrypted_suffix_blank; assumption)
next
  assume "\<forall>n \<le> length plaintext. \<not> directive_at (drop n plaintext)"
  then show "unencrypted_suffix plaintext = ''_decrypted''"
    by (rule unencrypted_suffix_default)
next
  fix w fs' assume r: "decryptToTempFile tool originalPath fs = (Inr w, fs')"
  with decryptToTempFile_result [OF plain]
  have w: "w = tempPath_of originalPath (unencrypted_suffix plaintext)"
    and fs': "fs' = fs\<lparr>files := (files fs)(w \<mapsto> plaintext)\<rparr>"
    by (auto simp: Let_def split: if_splits)
  from w show "w = join [take (length originalPath - length (basename originalPath [])) originalPath,
                  basename originalPath (extname originalPath) @ unencrypted_suffix plaintext
                    @ extname originalPath]"
    by (simp add: tempPath_of_def Let_def)
  from fs' show "files fs' w = Some plaintext" by simp
next
  assume "tempPath_of originalPath (unencrypted_suffix plaintext) \<notin> denied fs"
  with decryptToTempFile_result [OF plain]
  show "fst (decryptToTempFile tool originalPath fs)
          = Inr (tempPath_of originalPath (unencrypted_suffix plaintext))"
    by (simp add: Let_def)
next
  assume "originalPath \<noteq> [] \<and> last originalPath \<noteq> CHR ''/''"
  then have "take (length originalPath - length (basename originalPath [])) originalPath
          @ basename originalPath [] = originalPath"
    by (intro dir_part_basename) simp_all
  then show "take (length originalPath - length (basename originalPath [])) originalPath
          @ basename originalPath (extname originalPath) @ extname originalPath = originalPath"
    unfolding basename_extname basename_no_suffix .
next
  assume "normalize originalPath = originalPath \<and> originalPath \<noteq> [] \<and>
      last originalPath \<noteq> CHR ''/'' \<and>
      last_portion originalPath \<noteq> ''.'' \<and> last_portion originalPath \<noteq> ''..'' \<and>
      CHR ''/'' \<notin> set (unencrypted_suffix plaintext)"
  then show "tempPath_of originalPath (unencrypted_suffix plaintext)
          = take (length originalPath - length (basename originalPath [])) originalPath
              @ basename originalPath (extname originalPath) @ unencrypted_suffix plaintext
              @ extname originalPath"
    by (intro tempPath_of_normalized) simp_all
next
  assume a: "originalPath = ''a/b/secret.yaml'' \<and> ''a/b/secret_clear.yaml'' \<notin> denied fs \<and>
      (\<exists>pre post. plaintext = pre @ ''sops_unencrypted_suffix = _clear'' @ post \<and>
         (\<forall>n < length pre. \<not> directive_at (drop n plaintext)) \<and>
         (post = [] \<or> is_newline (hd post)))"
  then obtain pre post where p: "plaintext = pre @ ''sops_unencrypted_suffix = _clear'' @ post"
    and pre: "\<forall>n < length pre. \<not> directive_at (drop n plaintext)"
    and post: "post = [] \<or> is_newline (hd post)"
    by blast
  have p': "plaintext = pre @ ''sops_unencrypted_suffix'' @ '' '' @ ''='' @ '' '' @ ''_clear'' @ [] @ post"
    unfolding p by simp
  have sp: "\<forall>c \<in> set '' ''. is_space c" by (simp add: is_space_def)
  have v: "''_clear'' \<noteq> []" "\<not> is_space (hd ''_clear'')" "\<not> is_space (last ''_clear'')"
    "\<forall>c \<in> set ''_clear''. \<not> is_newline c"
    by (simp_all add: is_space_def is_newline_def)
  have e: "\<forall>c \<in> set []. is_space c \<and> \<not> is_newline c" by simp
  have "unencrypted_suffix plaintext = ''_clear''"
    using p' pre sp sp v e post by (rule unencrypted_suffix_value)
  then have "tempPath_of originalPath (unencrypted_suffix plaintext) = ''a/b/secret_clear.yaml''"
    using a tempPath_of_example by (simp only:)
  with decryptToTempFile_result [OF plain] a
  show "fst (decryptToTempFile tool originalPath fs) = Inr ''a/b/secret_clear.yaml''"
    by (simp only: Let_def if_False fst_conv)
qed

theorem decryptToTempFile_working_path_witness:
  "exec_decrypt clear_tool ''a/b/secret.yaml'' relative_store
     = Inr ''user: x\<newline>sops_unencrypted_suffix = _clear\<newline>pw: y'' \<and>
   unencrypted_suffix ''user: x\<newline>sops_unencrypted_suffix = _clear\<newline>pw: y'' = ''_clear'' \<and>
   fst (decryptToTempFile clear_tool ''a/b/secret.yaml'' relative_store)
     = Inr ''a/b/secret_clear.yaml'' \<and>
   fst (decryptToTempFile clear_tool ''/w/secret.yaml'' secret_store)
     = Inr ''/w/secret_clear.yaml'' \<and>
   unencrypted_suffix ''sops_unencrypted_suffix =  _dev  \<newline>user: x'' = ''_dev'' \<and>
   unencrypted_suffix ''sops_unencrypted_suffix = '' = [] \<and>
   unencrypted_suffix ''user: x'' = ''_decrypted'' \<and>
   fst (decryptToTempFile plain_tool ''/w/secret.yaml'' secret_store)
     = Inr ''/w/secret_decrypted.yaml'' \<and>
   normalize ''/w/secret.yaml'' = ''/w/secret.yaml'' \<and>
   tempPath_of ''/w/secret.yaml'' (unencrypted_suffix ''user: x'')
     = ''/w/'' @ ''secret'' @ ''_decrypted'' @ ''.yaml''"
proof -
  let ?p = "''user: x\<newline>sops_unencrypted_suffix = _clear\<newline>pw: y''"
  let ?q = "''sops_unencrypted_suffix =  _dev  \<newline>user: x''"
  let ?b = "''sops_unencrypted_suffix = ''"
  have d1: "exec_decrypt clear_tool ''a/b/secret.yaml'' relative_store = Inr ?p" by code_simp
  have d1': "exec_decrypt clear_tool ''/w/secret.yaml'' secret_store = Inr ?p" by code_simp
  have d2: "exec_decrypt plain_tool ''/w/secret.yaml'' secret_store = Inr ''user: x''"
    by code_simp
  have d3: "exec_decrypt (decrypting_tool (\<lambda>p. ?q)) ''/w/secret.yaml'' secret_store = Inr ?q"
    by code_simp
  have d4: "exec_decrypt (decrypting_tool (\<lambda>p. ?b)) ''/w/secret.yaml'' secret_store = Inr ?b"
    by code_simp
  note t1 = decryptToTempFile_working_path [OF d1]
  note t1' = decryptToTempFile_working_path [OF d1']
  note t2 = decryptToTempFile_working_path [OF d2]
  note t3 = decryptToTempFile_working_path [OF d3]
  note t4 = decryptToTempFile_working_path [OF d4]
  have k: "\<not> sublist ''sops_unencrypted_suffix'' ''user: x\<newline>''" by code_simp
  have first: "\<forall>n < length ''user: x\<newline>''. \<not> directive_at (drop n ?p)"
    using no_directive_before_key [OF k, of "'' = _clear\<newline>pw: y''"] by simp
  have sp: "\<forall>c \<in> set '' ''. is_space c" "\<forall>c \<in> set ''  ''. is_space c"
    "\<forall>c \<in> set ''  ''. is_space c \<and> \<not> is_newline c"
    "\<forall>c \<in> set []. is_space c \<and> \<not> is_newline c"
    by (simp_all add: is_space_def is_newline_def)
  have nl: "''\<newline>pw: y'' = [] \<or> is_newline (hd ''\<newline>pw: y'')"
    "''\<newline>user: x'' = [] \<or> is_newline (hd ''\<newline>user: x'')"
    by (simp_all add: is_newline_def)
  have A: "unencrypted_suffix ?p = ''_clear''"
  proof -
    have "?p = ''user: x\<newline>'' @ ''sops_unencrypted_suffix'' @ '' '' @ ''='' @ '' '' @ ''_clear''
                 @ [] @ ''\<newline>pw: y''" by simp
    moreover have "''_clear'' \<noteq> [] \<and> \<not> is_space (hd ''_clear'') \<and> \<not> is_space (last ''_clear'') \<and>
        (\<forall>c \<in> set ''_clear''. \<not> is_newline c)"
      by (simp add: is_space_def is_newline_def)
    ultimately show ?thesis
      using t1 [THEN conjunct1, rule_format, of "''user: x\<newline>''" "'' ''" "'' ''" "''_clear''"
          "[]" "''\<newline>pw: y''"] first sp nl
      by blast
  qed
  have ex: "\<exists>pre post. ?p = pre @ ''sops_unencrypted_suffix = _clear'' @ post \<and>
         (\<forall>n < length pre. \<not> directive_at (drop n ?p)) \<and> (post = [] \<or> is_newline (hd post))"
  proof (intro exI conjI)
    show "?p = ''user: x\<newline>'' @ ''sops_unencrypted_suffix = _clear'' @ ''\<newline>pw: y''" by simp
    show "\<forall>n < length ''user: x\<newline>''. \<not> directive_at (drop n ?p)" by (rule first)
    show "''\<newline>pw: y'' = [] \<or> is_newline (hd ''\<newline>pw: y'')" by (rule nl)
  qed
  have nd: "''a/b/secret_clear.yaml'' \<notin> denied relative_store"
    "''/w/secret_clear.yaml'' \<notin> denied secret_store"
    "''/w/secret_decrypted.yaml'' \<notin> denied secret_store"
    by (simp_all add: relative_store_def secret_store_def)
  from t1 ex nd have E: "fst (decryptToTempFile clear_tool ''a/b/secret.yaml'' relative_store)
     = Inr ''a/b/secret_clear.yaml''" by blast
  have tp: "tempPath_of ''/w/secret.yaml'' ''_clear'' = ''/w/secret_clear.yaml''"
    "tempPath_of ''/w/secret.yaml'' ''_decrypted'' = ''/w/secret_decrypted.yaml''"
    by code_simp+
  from t1' have "tempPath_of ''/w/secret.yaml'' (unencrypted_suffix ?p) \<notin> denied secret_store \<longrightarrow>
        fst (decryptToTempFile clear_tool ''/w/secret.yaml'' secret_store)
          = Inr (tempPath_of ''/w/secret.yaml'' (unencrypted_suffix ?p))" by blast
  with A tp nd have E': "fst (decryptToTempFile clear_tool ''/w/secret.yaml'' secret_store)
     = Inr ''/w/secret_clear.yaml''" by simp
  have Q: "unencrypted_suffix ?q = ''_dev''"
  proof -
    have "?q = [] @ ''sops_unencrypted_suffix'' @ '' '' @ ''='' @ ''  '' @ ''_dev''
                 @ ''  '' @ ''\<newline>user: x''" by simp
    moreover have "''_dev'' \<noteq> [] \<and> \<not> is_space (hd ''_dev'') \<and> \<not> is_space (last ''_dev'') \<and>
        (\<forall>c \<in> set ''_dev''. \<not> is_newline c)"
      by (simp add: is_space_def is_newline_def)
    moreover have "\<forall>n < length ([] :: string). \<not> directive_at (drop n ?q)" by simp
    ultimately show ?thesis
      using t3 [THEN conjunct1, rule_format, of "[]" "'' ''" "''  ''" "''_dev''"
          "''  ''" "''\<newline>user: x''"] sp nl
      by blast
  qed
  have B: "unencrypted_suffix ?b = []"
  proof -
    have "?b = [] @ ''sops_unencrypted_suffix'' @ '' '' @ ''='' @ '' ''" by simp
    moreover have "\<forall>n < length ([] :: string). \<not> directive_at (drop n ?b)" by simp
    moreover have "\<exists>c \<in> set '' ''. \<not> is_newline c" by (simp add: is_newline_def)
    ultimately show ?thesis
      using t4 [THEN conjunct2, THEN conjunct1, rule_format, of "[]" "'' ''" "'' ''"] sp
      by blast
  qed
  have "re_suffix_directive ''user: x'' = None" by code_simp
  then have "\<forall>n \<le> length ''user: x''. \<not> directive_at (drop n ''user: x'')"
    unfolding re_suffix_directive_None_iff .
  with t2 have D: "unencrypted_suffix ''user: x'' = ''_decrypted''" by blast
  from t2 have "tempPath_of ''/w/secret.yaml'' (unencrypted_suffix ''user: x'') \<notin> denied secret_store \<longrightarrow>
        fst (decryptToTempFile plain_tool ''/w/secret.yaml'' secret_store)
          = Inr (tempPath_of ''/w/secret.yaml'' (unencrypted_suffix ''user: x''))" by blast
  with D tp nd have F: "fst (decryptToTempFile plain_tool ''/w/secret.yaml'' secret_store)
     = Inr ''/w/secret_decrypted.yaml''" by simp
  have n: "normalize ''/w/secret.yaml'' = ''/w/secret.yaml''" by code_simp
  have parts: "take (length ''/w/secret.yaml'' - length (basename ''/w/secret.yaml'' []))
        ''/w/secret.yaml'' = ''/w/''"
    "basename ''/w/secret.yaml'' (extname ''/w/secret.yaml'') = ''secret''"
    "extname ''/w/secret.yaml'' = ''.yaml''"
    "last_portion ''/w/secret.yaml'' = ''secret.yaml''"
    by code_simp+
  from t2 have "normalize ''/w/secret.yaml'' = ''/w/secret.yaml'' \<and> ''/w/secret.yaml'' \<noteq> [] \<and>
      last ''/w/secret.yaml'' \<noteq> CHR ''/'' \<and>
      last_portion ''/w/secret.yaml'' \<noteq> ''.'' \<and> last_portion ''/w/secret.yaml'' \<noteq> ''..'' \<and>
      CHR ''/'' \<notin> set (unencrypted_suffix ''user: x'') \<longrightarrow>
        tempPath_of ''/w/secret.yaml'' (unencrypted_suffix ''user: x'')
          = take (length ''/w/secret.yaml'' - length (basename ''/w/secret.yaml'' []))
              ''/w/secret.yaml''
              @ basename ''/w/secret.yaml'' (extname ''/w/secret.yaml'')
              @ unencrypted_suffix ''user: x'' @ extname ''/w/secret.yaml''" by blast
  with n parts D have G: "tempPath_of ''/w/secret.yaml'' (unencrypted_suffix ''user: x'')
     = ''/w/'' @ ''secret'' @ ''_decrypted'' @ ''.yaml''" by simp
  from d1 A E E' Q B D F n G show ?thesis by simp
qed

section \<open>Properties of rule lookup\<close>

text \<open>The loop keeps the order of the rules, and stops at the first pattern that is no
  expression.\<close>

lemma applicable_loop_filter:
  assumes "\<forall>r \<in> set rules. \<forall>pat. path_regex r = Some pat \<longrightarrow> rx pat \<noteq> None"
    and "\<forall>t. rx [] = Some t \<longrightarrow> t filePath"
  shows "applicable_loop rx filePath rules acc =
           Inr (acc @ filter (\<lambda>r. case path_regex r of None \<Rightarrow> True
                                   | Some pat \<Rightarrow> (case rx pat of None \<Rightarrow> False | Some t \<Rightarrow> t filePath)) rules)"
  using assms
proof (induction rules arbitrary: acc)
  case Nil
  then show ?case by simp
next
  case (Cons r rules)
  then show ?case
    by (cases "path_regex r") (auto split: option.splits)
qed

lemma applicable_loop_invalid:
  assumes "r \<in> set rules" and "path_regex r = Some pat" and "rx pat = None" and "rx [] \<noteq> None"
  shows "\<exists>e. applicable_loop rx filePath rules acc = Inl e"
  using assms
proof (induction rules arbitrary: acc)
  case Nil
  then show ?case by simp
next
  case (Cons a rules)
  show ?case
  proof (cases "a = r")
    case True
    with Cons.prems show ?thesis by auto
  next
    case False
    with Cons.prems have "r \<in> set rules" by simp
    from Cons.IH [OF this Cons.prems(2-4)]
    show ?thesis by (auto split: option.splits)
  qed
qed

text \<open>
  Claim C6, as stated, covers every configuration that parses.  Here the configuration
  parses and has two rules: a rule without pattern, which matches every path, and a rule
  whose pattern is an unterminated group.  The claim asks for the first rule; the function
  returns no rule at all.
\<close>

theorem getApplicableCreationRules_invalid_pattern_hides_fallback:
  "creation_rules \<lparr>creation_rules = Some [fallback_rule, broken_rule]\<rparr>
     = Some [fallback_rule, broken_rule] \<and>
   yaml_load (example_env [fallback_rule, broken_rule]) ''creation_rules: ...''
     = Some \<lparr>creation_rules = Some [fallback_rule, broken_rule]\<rparr> \<and>
   path_regex fallback_rule = None \<and>
   getApplicableCreationRules (example_env [fallback_rule, broken_rule]) config_store ''foo.yaml''
     = []"
  by (simp add: getApplicableCreationRules_def applicable_rules_try_def workspace_root_def
      example_env_def config_store_def readFile_def fallback_rule_def broken_rule_def
      example_RegExp_def join_def normalize_def normalizeString_def)

text \<open>
  Claim C6, amended.  For a configuration that is read and parsed, has a sequence of
  creation rules, and in which every pattern present is a regular expression, the function
  returns, in the order of the file, exactly the rules without pattern and the rules whose
  pattern matches the path; matching is the test of the expression, which searches the
  path for a match and is not anchored.  (The empty pattern is treated as absent by the
  function; as an expression it succeeds on every path, which is the second hypothesis
  on the expressions.)
\<close>

theorem getApplicableCreationRules_filter:
  assumes root: "workspace_root env = Inr root"
    and cfile: "readFile (join [root, ''.sops.yaml'']) fs = Inr configFile"
    and parsed: "yaml_load env configFile = Some config"
    and rules: "creation_rules config = Some rules"
    and valid: "\<forall>r \<in> set rules. \<forall>pat. path_regex r = Some pat \<longrightarrow> RegExp env pat \<noteq> None"
    and empty: "\<forall>test. RegExp env [] = Some test \<longrightarrow> test filePath"
  shows "getApplicableCreationRules env fs filePath =
           filter (\<lambda>r. case path_regex r of
                         None \<Rightarrow> True
                       | Some pat \<Rightarrow> regexp_matches env pat filePath) rules"
proof -
  have "applicable_loop (RegExp env) filePath rules [] =
          Inr ([] @ filter (\<lambda>r. case path_regex r of None \<Rightarrow> True
                 | Some pat \<Rightarrow> (case RegExp env pat of None \<Rightarrow> False | Some t \<Rightarrow> t filePath)) rules)"
    using valid empty by (rule applicable_loop_filter)
  then show ?thesis
    unfolding regexp_matches_def
    by (simp add: getApplicableCreationRules_def applicable_rules_try_def root cfile parsed rules)
qed

theorem getApplicableCreationRules_filter_witness:
  "getApplicableCreationRules (example_env [yaml_rule, fallback_rule]) config_store ''foo.yaml''
     = [yaml_rule, fallback_rule] \<and>
   getApplicableCreationRules (example_env [yaml_rule, fallback_rule]) config_store ''foo.json''
     = [fallback_rule] \<and>
   regexp_matches (example_env [yaml_rule, fallback_rule]) (''.*'' @ [CHR 0x5C] @ ''.yaml$'') ''foo.yaml'' \<and>
   \<not> regexp_matches (example_env [yaml_rule, fallback_rule]) (''.*'' @ [CHR 0x5C] @ ''.yaml$'') ''foo.json''"
proof -
  let ?env = "example_env [yaml_rule, fallback_rule]"
  have root: "workspace_root ?env = Inr ''/w''"
    by (simp add: workspace_root_def example_env_def)
  have "join [''/w'', ''.sops.yaml''] = ''/w/.sops.yaml''" by code_simp
  then have cfile: "readFile (join [''/w'', ''.sops.yaml'']) config_store = Inr ''creation_rules: ...''"
    by (simp add: readFile_def config_store_def)
  have parsed: "yaml_load ?env ''creation_rules: ...'' = Some \<lparr>creation_rules = Some [yaml_rule, fallback_rule]\<rparr>"
    by (simp add: example_env_def)
  have rules: "creation_rules \<lparr>creation_rules = Some [yaml_rule, fallback_rule]\<rparr> = Some [yaml_rule, fallback_rule]"
    by simp
  have valid: "\<forall>r \<in> set [yaml_rule, fallback_rule]. \<forall>pat. path_regex r = Some pat \<longrightarrow> RegExp ?env pat \<noteq> None"
    by (simp add: yaml_rule_def fallback_rule_def example_env_def example_RegExp_def)
  have empty: "\<forall>test. RegExp ?env [] = Some test \<longrightarrow> test p" for p
    by (simp add: example_env_def example_RegExp_def)
  have m: "regexp_matches ?env (''.*'' @ [CHR 0x5C] @ ''.yaml$'') ''foo.yaml''"
    "\<not> regexp_matches ?env (''.*'' @ [CHR 0x5C] @ ''.yaml$'') ''foo.json''"
    by (simp_all add: regexp_matches_def example_env_def example_RegExp_def suffix_def)
  note t = getApplicableCreationRules_filter [OF root cfile parsed rules valid empty]
  from t [of "''foo.yaml''"] t [of "''foo.json''"] m
  show ?thesis
    by (simp add: yaml_rule_def fallback_rule_def)
qed

text \<open>
  Claim C9.  For a configuration that is read and parsed and has a sequence of creation
  rules, if some rule has a pattern that is no regular expression, the function returns
  the empty list for every path, whatever rules stand before or after that rule.
\<close>

theorem getApplicableCreationRules_invalid_pattern:
  assumes root: "workspace_root env = Inr root"
    and cfile: "readFile (join [root, ''.sops.yaml'']) fs = Inr configFile"
    and parsed: "yaml_load env configFile = Some config"
    and rules: "creation_rules config = Some rules"
    and member: "r \<in> set rules"
    and pattern: "path_regex r = Some pat"
    and invalid: "RegExp env pat = None"
    and empty: "RegExp env [] \<noteq> None"
  shows "getApplicableCreationRules env fs filePath = []"
proof -
  from applicable_loop_invalid [OF member pattern invalid empty]
  obtain e where "applicable_loop (RegExp env) filePath rules [] = Inl e" by blast
  then show ?thesis
    by (simp add: getApplicableCreationRules_def applicable_rules_try_def root cfile parsed rules)
qed

theorem getApplicableCreationRules_invalid_pattern_witness:
  "getApplicableCreationRules (example_env [yaml_rule, broken_rule, fallback_rule]) config_store
     ''foo.yaml'' = [] \<and>
   applicable_loop example_RegExp ''foo.yaml'' [yaml_rule] [] = Inr [yaml_rule] \<and>
   RegExp (example_env [yaml_rule, broken_rule, fallback_rule]) ''('' = None"
proof -
  let ?rules = "[yaml_rule, broken_rule, fallback_rule]"
  let ?env = "example_env ?rules"
  have root: "workspace_root ?env = Inr ''/w''"
    by (simp add: workspace_root_def example_env_def)
  have "join [''/w'', ''.sops.yaml''] = ''/w/.sops.yaml''" by code_simp
  then have cfile: "readFile (join [''/w'', ''.sops.yaml'']) config_store = Inr ''creation_rules: ...''"
    by (simp add: readFile_def config_store_def)
  have parsed: "yaml_load ?env ''creation_rules: ...'' = Some \<lparr>creation_rules = Some ?rules\<rparr>"
    by (simp add: example_env_def)
  have rules: "creation_rules \<lparr>creation_rules = Some ?rules\<rparr> = Some ?rules"
    by simp
  have member: "broken_rule \<in> set ?rules" by simp
  have pattern: "path_regex broken_rule = Some ''(''" by (simp add: broken_rule_def)
  have invalid: "RegExp ?env ''('' = None" by (simp add: example_env_def example_RegExp_def)
  have empty: "RegExp ?env [] \<noteq> None" by (simp add: example_env_def example_RegExp_def)
  have before: "applicable_loop example_RegExp ''foo.yaml'' [yaml_rule] [] = Inr [yaml_rule]"
    by (simp add: yaml_rule_def example_RegExp_def suffix_def)
  from getApplicableCreationRules_invalid_pattern [OF root cfile parsed rules member pattern invalid empty]
    before invalid
  show ?thesis by simp
qed

section \<open>The two maps in the states a session reaches\<close>

lemma session_inv_close_active_editor:
  "session_inv s \<Longrightarrow> session_inv (close_active_editor p s)"
  unfolding session_inv_def close_active_editor_def by auto

lemma session_inv_remove_pair:
  assumes inv: "session_inv s" and w: "map_of (tempToOriginalMap s) w = Some orig"
  shows "session_inv (s\<lparr>disk := d,
            tempToOriginalMap := AList.delete w (tempToOriginalMap s),
            originalToTempMap := AList.delete orig (originalToTempMap s)\<rparr>)"
proof -
  from inv have dT: "distinct (map fst (tempToOriginalMap s))"
    and dO: "distinct (map fst (originalToTempMap s))"
    and m: "\<And>w x. (w, x) \<in> set (tempToOriginalMap s) \<Longrightarrow> map_of (originalToTempMap s) x = Some w"
    by (auto simp: session_inv_def)
  from w have wo: "(w, orig) \<in> set (tempToOriginalMap s)" by (rule map_of_SomeD)
  have "map_of (AList.delete orig (originalToTempMap s)) o' = Some w'"
    if "(w', o') \<in> set (AList.delete w (tempToOriginalMap s))" for w' o'
  proof -
    from that have in_T: "(w', o') \<in> set (tempToOriginalMap s)" and ne: "w' \<noteq> w"
      by (auto simp: AList.delete_eq)
    from m [OF in_T] have o': "map_of (originalToTempMap s) o' = Some w'" .
    have "o' \<noteq> orig"
    proof
      assume "o' = orig"
      with o' m [OF wo] have "w' = w" by simp
      with ne show False ..
    qed
    with o' show ?thesis by (simp add: AList.delete_conv')
  qed
  with dT dO show ?thesis
    by (auto simp: session_inv_def AList.distinct_delete)
qed



lemma session_inv_frame:
  "session_inv (s\<lparr>disk := d\<rparr>) = session_inv s"
  "session_inv (s\<lparr>notifications := n\<rparr>) = session_inv s"
  "session_inv (s\<lparr>isCleaningUp := b\<rparr>) = session_inv s"
  "session_inv (s\<lparr>cleanupTimeout := b\<rparr>) = session_inv s"
  "session_inv (s\<lparr>statusBarItem := sb\<rparr>) = session_inv s"
  "session_inv (s\<lparr>activeTextEditor := a\<rparr>) = session_inv s"
  by (simp_all add: session_inv_def)

lemma cleanupTempFile_files:
  "files (cleanupTempFile p fs) = (\<lambda>k. if k = p \<and> p \<notin> denied fs then None else files fs k)"
  "denied (cleanupTempFile p fs) = denied fs"
  by (auto simp: cleanupTempFile_def unlink_def fun_eq_iff)

lemma count_list_remove1:
  "count_list (remove1 x xs) k
     = (if k = x \<and> x \<in> set xs then count_list xs k - 1 else count_list xs k)"
  by (induction xs) auto

text \<open>One turn of the cleanup loop: the editor of the working file is closed when there is
  one; without one, the working file is removed and the pair leaves both maps.\<close>

lemma clean_context_effect:
  "clean_context (w, orig) s =
     (if w \<in> set (visibleTextEditors s) then close_active_editor w s
      else s\<lparr>disk := cleanupTempFile w (disk s),
             tempToOriginalMap := AList.delete w (tempToOriginalMap s),
             originalToTempMap := AList.delete orig (originalToTempMap s)\<rparr>)"
  by (simp add: clean_context_def closeEditor_def)

lemma session_inv_clean_context:
  assumes "session_inv s" and "map_of (tempToOriginalMap s) w = Some orig"
  shows "session_inv (clean_context (w, orig) s)"
proof (cases "w \<in> set (visibleTextEditors s)")
  case True
  with assms(1) show ?thesis
    unfolding clean_context_effect by (simp add: session_inv_close_active_editor)
next
  case False
  with session_inv_remove_pair [OF assms] show ?thesis
    unfolding clean_context_effect by simp
qed

text \<open>The whole loop, on registered pairs with different working paths.\<close>

lemma fold_clean_context:
  assumes "session_inv s" and "distinct (map fst cs)"
    and "\<forall>(w, orig) \<in> set cs. map_of (tempToOriginalMap s) w = Some orig"
  shows "session_inv (fold clean_context cs s) \<and>
         map_of (tempToOriginalMap (fold clean_context cs s))
           = (\<lambda>k. if k \<in> fst ` set cs \<and> k \<notin> set (visibleTextEditors s) then None
                 else map_of (tempToOriginalMap s) k) \<and>
         map_of (originalToTempMap (fold clean_context cs s))
           = (\<lambda>k. if k \<in> snd ` {c \<in> set cs. fst c \<notin> set (visibleTextEditors s)} then None
                 else map_of (originalToTempMap s) k) \<and>
         files (disk (fold clean_context cs s))
           = (\<lambda>k. if k \<in> fst ` set cs \<and> k \<notin> set (visibleTextEditors s) \<and> k \<notin> denied (disk s)
                 then None else files (disk s) k) \<and>
         denied (disk (fold clean_context cs s)) = denied (disk s) \<and>
         count_list (visibleTextEditors (fold clean_context cs s))
           = (\<lambda>k. if k \<in> fst ` set cs then count_list (visibleTextEditors s) k - 1
                 else count_list (visibleTextEditors s) k) \<and>
         isCleaningUp (fold clean_context cs s) = isCleaningUp s \<and>
         cleanupTimeout (fold clean_context cs s) = cleanupTimeout s \<and>
         notifications (fold clean_context cs s) = notifications s \<and>
         statusBarItem (fold clean_context cs s) = statusBarItem s"
  using assms
proof (induction cs arbitrary: s)
  case Nil
  then show ?case by simp
next
  case (Cons c cs)
  obtain w orig where c: "c = (w, orig)" by (cases c)
  let ?s1 = "clean_context (w, orig) s"
  let ?vis = "w \<in> set (visibleTextEditors s)"
  from Cons.prems(3) c have reg: "map_of (tempToOriginalMap s) w = Some orig" by simp
  note eff = clean_context_effect [of w orig s]
  have inv1: "session_inv ?s1"
    using Cons.prems(1) reg by (rule session_inv_clean_context)
  from Cons.prems(2) c have d: "distinct (map fst cs)" and w: "w \<notin> fst ` set cs" by auto
  have T1: "map_of (tempToOriginalMap ?s1) k
              = (if k = w \<and> \<not> ?vis then None else map_of (tempToOriginalMap s) k)"
    and O1: "map_of (originalToTempMap ?s1) k
              = (if k = orig \<and> \<not> ?vis then None else map_of (originalToTempMap s) k)"
    and F1: "files (disk ?s1) k
              = (if k = w \<and> \<not> ?vis \<and> w \<notin> denied (disk s) then None else files (disk s) k)"
    and C1: "count_list (visibleTextEditors ?s1) k
              = (if k = w then count_list (visibleTextEditors s) k - 1
                 else count_list (visibleTextEditors s) k)"
    and S1: "k \<noteq> w \<Longrightarrow> k \<in> set (visibleTextEditors ?s1) \<longleftrightarrow> k \<in> set (visibleTextEditors s)"
    for k
    unfolding eff
    by (auto simp: close_active_editor_def AList.delete_conv' cleanupTempFile_files
        count_list_remove1 count_list_0_iff)
  have D1: "denied (disk ?s1) = denied (disk s)"
    and R1: "isCleaningUp ?s1 = isCleaningUp s" "cleanupTimeout ?s1 = cleanupTimeout s"
      "notifications ?s1 = notifications s" "statusBarItem ?s1 = statusBarItem s"
    unfolding eff by (simp_all add: close_active_editor_def cleanupTempFile_files)
  have reg1: "\<forall>(w', orig') \<in> set cs. map_of (tempToOriginalMap ?s1) w' = Some orig'"
  proof (clarify)
    fix w' orig' assume m: "(w', orig') \<in> set cs"
    with w have "w' \<noteq> w" by force
    moreover from Cons.prems(3) m have "map_of (tempToOriginalMap s) w' = Some orig'" by auto
    ultimately show "map_of (tempToOriginalMap ?s1) w' = Some orig'"
      unfolding T1 by simp
  qed
  note IH = Cons.IH [OF inv1 d reg1]
  have fold_eq: "fold clean_context (c # cs) s = fold clean_context cs ?s1"
    by (simp add: c)
  have same_vis: "fst x \<in> set (visibleTextEditors ?s1) \<longleftrightarrow> fst x \<in> set (visibleTextEditors s)"
    if "x \<in> set cs" for x
  proof -
    from that w have "fst x \<noteq> w" by force
    then show ?thesis by (rule S1)
  qed
  have fst_vis: "k \<in> fst ` set cs \<and> k \<notin> set (visibleTextEditors ?s1)
                   \<longleftrightarrow> k \<in> fst ` set cs \<and> k \<notin> set (visibleTextEditors s)" for k
    using same_vis by auto
  have snd_vis: "{x \<in> set cs. fst x \<notin> set (visibleTextEditors ?s1)}
                   = {x \<in> set cs. fst x \<notin> set (visibleTextEditors s)}"
    using same_vis by auto
  have Tk: "map_of (tempToOriginalMap (fold clean_context cs ?s1)) k
              = (if k \<in> fst ` set (c # cs) \<and> k \<notin> set (visibleTextEditors s) then None
                 else map_of (tempToOriginalMap s) k)" for k
  proof -
    from IH have "map_of (tempToOriginalMap (fold clean_context cs ?s1)) k
              = (if k \<in> fst ` set cs \<and> k \<notin> set (visibleTextEditors ?s1) then None
                 else map_of (tempToOriginalMap ?s1) k)" by simp
    then show ?thesis unfolding fst_vis T1 by (auto simp: c)
  qed
  have Ok: "map_of (originalToTempMap (fold clean_context cs ?s1)) k
              = (if k \<in> snd ` {x \<in> set (c # cs). fst x \<notin> set (visibleTextEditors s)} then None
                 else map_of (originalToTempMap s) k)" for k
  proof -
    from IH have *: "map_of (originalToTempMap (fold clean_context cs ?s1)) k
              = (if k \<in> snd ` {x \<in> set cs. fst x \<notin> set (visibleTextEditors ?s1)} then None
                 else map_of (originalToTempMap ?s1) k)" by simp
    show ?thesis
    proof (cases ?vis)
      case True
      then have "{x \<in> set (c # cs). fst x \<notin> set (visibleTextEditors s)}
                   = {x \<in> set cs. fst x \<notin> set (visibleTextEditors s)}"
        unfolding c by auto
      with * True show ?thesis unfolding snd_vis O1 by simp
    next
      case False
      then have "{x \<in> set (c # cs). fst x \<notin> set (visibleTextEditors s)}
                   = insert (w, orig) {x \<in> set cs. fst x \<notin> set (visibleTextEditors s)}"
        unfolding c by auto
      with * False show ?thesis unfolding snd_vis O1 by simp
    qed
  qed
  have Fk: "files (disk (fold clean_context cs ?s1)) k
              = (if k \<in> fst ` set (c # cs) \<and> k \<notin> set (visibleTextEditors s) \<and> k \<notin> denied (disk s)
                 then None else files (disk s) k)" for k
  proof -
    from IH have "files (disk (fold clean_context cs ?s1)) k
              = (if k \<in> fst ` set cs \<and> k \<notin> set (visibleTextEditors ?s1) \<and> k \<notin> denied (disk ?s1)
                 then None else files (disk ?s1) k)" by simp
    then show ?thesis using fst_vis [of k] unfolding D1 F1 by (auto simp: c)
  qed
  have Ck: "count_list (visibleTextEditors (fold clean_context cs ?s1)) k
              = (if k \<in> fst ` set (c # cs) then count_list (visibleTextEditors s) k - 1
                 else count_list (visibleTextEditors s) k)" for k
  proof -
    from IH have "count_list (visibleTextEditors (fold clean_context cs ?s1)) k
              = (if k \<in> fst ` set cs then count_list (visibleTextEditors ?s1) k - 1
                 else count_list (visibleTextEditors ?s1) k)" by simp
    then show ?thesis using w unfolding C1 by (auto simp: c)
  qed
  from IH have rest: "session_inv (fold clean_context cs ?s1)"
    "denied (disk (fold clean_context cs ?s1)) = denied (disk s)"
    "isCleaningUp (fold clean_context cs ?s1) = isCleaningUp s"
    "cleanupTimeout (fold clean_context cs ?s1) = cleanupTimeout s"
    "notifications (fold clean_context cs ?s1) = notifications s"
    "statusBarItem (fold clean_context cs ?s1) = statusBarItem s"
    by (simp_all add: D1 R1)
  show ?case
    unfolding fold_eq using rest Tk Ok Fk Ck by (simp add: fun_eq_iff)
qed

lemma contextsToClean_props:
  assumes "distinct (map fst entries)"
  shows "distinct (map fst (contextsToClean a entries))"
    and "\<forall>(w, orig) \<in> set (contextsToClean a entries). map_of entries w = Some orig"
    and "set (contextsToClean a entries)
           = {(w, orig). (w, orig) \<in> set entries \<and> a \<noteq> Some w \<and> a \<noteq> Some orig}"
  using assms by (auto simp: contextsToClean_def distinct_map_filter)










section \<open>When the two maps stay mutual inverses\<close>

lemma paired_frame:
  "paired (s\<lparr>disk := d\<rparr>) = paired s"
  "paired (s\<lparr>notifications := n\<rparr>) = paired s"
  "paired (s\<lparr>isCleaningUp := b\<rparr>) = paired s"
  "paired (s\<lparr>cleanupTimeout := b\<rparr>) = paired s"
  "paired (s\<lparr>statusBarItem := sb\<rparr>) = paired s"
  "paired (s\<lparr>activeTextEditor := a\<rparr>) = paired s"
  "paired (s\<lparr>visibleTextEditors := v\<rparr>) = paired s"
  by (simp_all add: paired_def)

lemma paired_initial: "paired (initial_session fs)"
  by (simp add: paired_def initial_session_def)

lemma paired_remove_pair:
  assumes p: "paired s" and w: "map_of (tempToOriginalMap s) w = Some orig"
  shows "paired (s\<lparr>disk := d,
            tempToOriginalMap := AList.delete w (tempToOriginalMap s),
            originalToTempMap := AList.delete orig (originalToTempMap s)\<rparr>)"
proof -
  from p have eq: "\<And>x y. map_of (originalToTempMap s) x = Some y
                      \<longleftrightarrow> map_of (tempToOriginalMap s) y = Some x"
    by (simp add: paired_def)
  from w eq have o: "map_of (originalToTempMap s) orig = Some w" by simp
  have "map_of (AList.delete orig (originalToTempMap s)) x = Some y
          \<longleftrightarrow> map_of (AList.delete w (tempToOriginalMap s)) y = Some x" for x y
    using eq [of x y] w o by (auto simp: AList.delete_conv')
  then show ?thesis
    unfolding paired_def by simp
qed

lemma paired_close:
  assumes "paired s"
  shows "paired (onDidCloseTextDocument p s)"
proof (cases "map_of (tempToOriginalMap s) p")
  case (Some originalPath)
  with paired_remove_pair [OF assms Some] show ?thesis
    by (simp add: onDidCloseTextDocument_def)
next
  case None
  with assms show ?thesis
    by (simp add: onDidCloseTextDocument_def closeEditor_def close_active_editor_def
        paired_frame split: option.splits)
qed

lemma paired_register:
  assumes p: "paired s"
    and fresh_orig: "map_of (originalToTempMap s) d = None"
    and fresh_temp: "map_of (tempToOriginalMap s) t = None"
  shows "paired (show_document t
           (s\<lparr>disk := fs',
              tempToOriginalMap := AList.update t d (tempToOriginalMap s),
              originalToTempMap := AList.update d t (originalToTempMap s)\<rparr>))"
proof -
  from p have eq: "\<And>x y. map_of (originalToTempMap s) x = Some y
                      \<longleftrightarrow> map_of (tempToOriginalMap s) y = Some x"
    by (simp add: paired_def)
  have "map_of (AList.update d t (originalToTempMap s)) x = Some y
          \<longleftrightarrow> map_of (AList.update t d (tempToOriginalMap s)) y = Some x" for x y
    using eq [of x y] fresh_orig fresh_temp by (auto simp: AList.update_conv')
  then show ?thesis
    unfolding paired_def show_document_def by simp
qed

lemma paired_open:
  assumes p: "paired s"
    and fresh: "\<And>t fs'. decryptToTempFile tool (fileName doc) (disk s) = (Inr t, fs')
                  \<Longrightarrow> map_of (tempToOriginalMap s) t = None"
  shows "paired (onDidOpenTextDocument tool doc s)"
proof -
  have *: "paired (case decryptToTempFile tool (fileName doc) (disk s) of
             (Inr newTempPath, fs') \<Rightarrow>
               show_document newTempPath
                 (s\<lparr>disk := fs',
                    tempToOriginalMap := AList.update newTempPath (fileName doc) (tempToOriginalMap s),
                    originalToTempMap := AList.update (fileName doc) newTempPath (originalToTempMap s)\<rparr>)
           | (Inl error, fs') \<Rightarrow>
               s\<lparr>disk := fs', notifications := notifications s @ [DecryptionFailed error]\<rparr>)"
    if unreg: "map_of (originalToTempMap s) (fileName doc) = None"
  proof (cases "decryptToTempFile tool (fileName doc) (disk s)")
    case (Pair res fs')
    show ?thesis
    proof (cases res)
      case (Inl e)
      with Pair p show ?thesis by (simp add: paired_def)
    next
      case (Inr t)
      with Pair have "map_of (tempToOriginalMap s) t = None" by (intro fresh) simp
      with Pair Inr paired_register [OF p unreg this] show ?thesis by simp
    qed
  qed
  show ?thesis
    unfolding onDidOpenTextDocument_def Let_def
    using p * by (simp del: map_of_eq_Some_iff)
qed

lemma paired_cleanup:
  assumes inv: "session_inv s" and p: "paired s"
  shows "paired (cleanup_callback s)"
proof (cases "isCleaningUp s")
  case True
  with p show ?thesis by (simp add: cleanup_callback_def)
next
  case False
  let ?s1 = "s\<lparr>isCleaningUp := True\<rparr>"
  let ?cs = "contextsToClean (activeTextEditor s) (tempToOriginalMap s)"
  let ?s2 = "fold clean_context ?cs ?s1"
  from p have eq: "\<And>x y. map_of (originalToTempMap s) x = Some y
                      \<longleftrightarrow> map_of (tempToOriginalMap s) y = Some x"
    by (simp add: paired_def)
  from inv have dT: "distinct (map fst (tempToOriginalMap s))" by (simp add: session_inv_def)
  have inv1: "session_inv ?s1" using inv by (simp add: session_inv_frame)
  note cp = contextsToClean_props [OF dT, of "activeTextEditor s"]
  have reg: "\<forall>(w, orig) \<in> set ?cs. map_of (tempToOriginalMap ?s1) w = Some orig"
    using cp(2) by simp
  note f = fold_clean_context [OF inv1 cp(1) reg]
  let ?v = "set (visibleTextEditors s)"
  have T: "map_of (tempToOriginalMap ?s2) k
             = (if k \<in> fst ` set ?cs \<and> k \<notin> ?v then None else map_of (tempToOriginalMap s) k)"
    for k
    using f by simp
  have O: "map_of (originalToTempMap ?s2) k
             = (if k \<in> snd ` {c \<in> set ?cs. fst c \<notin> ?v} then None
                else map_of (originalToTempMap s) k)" for k
    using f by simp
  have same: "x \<in> snd ` {c \<in> set ?cs. fst c \<notin> ?v} \<longleftrightarrow> y \<in> fst ` set ?cs \<and> y \<notin> ?v"
    if xy: "map_of (tempToOriginalMap s) y = Some x" for x y
  proof
    assume "x \<in> snd ` {c \<in> set ?cs. fst c \<notin> ?v}"
    then obtain y' where in_cs: "(y', x) \<in> set ?cs" and nv: "y' \<notin> ?v" by force
    with cp(2) have "map_of (tempToOriginalMap s) y' = Some x" by auto
    with eq [of x y'] eq [of x y] xy have "y' = y" by simp
    with in_cs nv show "y \<in> fst ` set ?cs \<and> y \<notin> ?v" by force
  next
    assume a: "y \<in> fst ` set ?cs \<and> y \<notin> ?v"
    then obtain x' where in_cs: "(y, x') \<in> set ?cs" by force
    with cp(2) have "map_of (tempToOriginalMap s) y = Some x'" by auto
    with xy have "x' = x" by simp
    with in_cs a show "x \<in> snd ` {c \<in> set ?cs. fst c \<notin> ?v}" by force
  qed
  have "map_of (originalToTempMap ?s2) x = Some y \<longleftrightarrow> map_of (tempToOriginalMap ?s2) y = Some x"
    for x y
    unfolding T O using eq [of x y] same [of y x] by auto
  then have "paired ?s2" unfolding paired_def by simp
  with False show ?thesis
    by (simp add: cleanup_callback_def Let_def paired_frame)
qed

text \<open>
  A transition keeps the two maps mutual inverses, unless it is an open that is given a
  working path which is registered already.
\<close>

lemma paired_step:
  assumes inv: "session_inv s" and p: "paired s"
    and fresh: "\<And>doc t fs'. e = Open doc \<Longrightarrow>
                  decryptToTempFile tool (fileName doc) (disk s) = (Inr t, fs') \<Longrightarrow>
                  map_of (tempToOriginalMap s) t = None"
  shows "paired (step tool e s)"
proof (cases e)
  case (Open doc)
  with p fresh show ?thesis by (simp add: paired_open)
next
  case (Save doc uuid)
  with p show ?thesis
    by (auto simp: onDidSaveTextDocument_def Let_def paired_frame
        split: option.splits prod.splits sum.splits)
next
  case (Close doc)
  with p show ?thesis by (simp add: paired_close)
next
  case (FocusChange editor)
  with p show ?thesis
    by (auto simp: onDidChangeActiveTextEditor_def updateStatusBar_def paired_frame
        split: option.splits)
next
  case TimerFire
  with inv p show ?thesis by (simp add: paired_cleanup session_inv_frame paired_frame)
qed

section \<open>Properties of the session\<close>

text \<open>
  Claim C2 asks that after every transition \<open>originalToTempMap\<close> maps an original to
  a working path exactly when \<open>tempToOriginalMap\<close> maps that working path to that
  original.  Two opens reach a state where this fails: \<^verbatim>\<open>app_dev.yaml\<close> gets the
  working path \<^verbatim>\<open>app_dev_decrypted.yaml\<close> with the default suffix, and then
  \<^verbatim>\<open>app.yaml\<close>, whose plaintext asks for the suffix \<^verbatim>\<open>_dev_decrypted\<close>, gets the
  same working path.  The open handler checks the path of the document against the two
  maps, not the new working path, so the second registration takes the entry of the
  working path over and leaves the entry of the first original behind.  (Every other
  transition keeps the maps mutual inverses: \<open>paired_step\<close>.)
\<close>

theorem colliding_working_paths_break_pairing:
  "map_of (originalToTempMap
      (run two_files_tool [Open app_dev_doc, Open app_doc] (initial_session two_files)))
      ''app_dev.yaml'' = Some ''app_dev_decrypted.yaml'' \<and>
   map_of (tempToOriginalMap
      (run two_files_tool [Open app_dev_doc, Open app_doc] (initial_session two_files)))
      ''app_dev_decrypted.yaml'' = Some ''app.yaml'' \<and>
   \<not> paired (run two_files_tool [Open app_dev_doc, Open app_doc] (initial_session two_files))"
proof -
  let ?s = "run two_files_tool [Open app_dev_doc, Open app_doc] (initial_session two_files)"
  have a: "map_of (originalToTempMap ?s) ''app_dev.yaml'' = Some ''app_dev_decrypted.yaml''"
    by code_simp
  have b: "map_of (tempToOriginalMap ?s) ''app_dev_decrypted.yaml'' = Some ''app.yaml''"
    by code_simp
  have "\<not> paired ?s"
  proof
    assume "paired ?s"
    with a have "map_of (tempToOriginalMap ?s) ''app_dev_decrypted.yaml'' = Some ''app_dev.yaml''"
      unfolding paired_def by blast
    with b show False by simp
  qed
  with a b show ?thesis by blast
qed




text \<open>
  The statement is about the entries of \<open>tempToOriginalMap\<close>.  An entry of
  \<open>originalToTempMap\<close> that has no mirror entry, as the colliding opens of C2 leave
  one, is not kept by the focus: in \<open>collided_session\<close> the focus is on
  \<^verbatim>\<open>app_dev.yaml\<close>, which \<open>originalToTempMap\<close> maps to the working file, and the
  firing of the timer removes that file.
\<close>

lemma focused_original_without_mirror_loses_working_file:
  "activeTextEditor collided_session = Some ''app_dev.yaml'' \<and>
   cleanupTimeout collided_session = True \<and>
   tempToOriginalMap collided_session = [(''app_dev_decrypted.yaml'', ''app.yaml'')] \<and>
   map_of (originalToTempMap collided_session) ''app_dev.yaml'' = Some ''app_dev_decrypted.yaml'' \<and>
   files (disk collided_session) ''app_dev_decrypted.yaml''
     = Some ''sops_unencrypted_suffix = _dev_decrypted\<newline>user: a'' \<and>
   map_of (originalToTempMap (step two_files_tool TimerFire collided_session)) ''app_dev.yaml''
     = Some ''app_dev_decrypted.yaml'' \<and>
   files (disk (step two_files_tool TimerFire collided_session)) ''app_dev_decrypted.yaml'' = None"
  by code_simp

text \<open>
  Claim C10.  An open event handled while \<open>isCleaningUp\<close> is set changes nothing:
  the handler returns the state it was given, whatever the document is.
\<close>

theorem open_during_cleanup_is_ignored:
  assumes "isCleaningUp s"
  shows "onDidOpenTextDocument tool doc s = s \<and> step tool (Open doc) s = s"
  using assms by (simp add: onDidOpenTextDocument_def)

theorem open_during_cleanup_is_ignored_witness:
  "isSopsEncrypted (getText secret_doc) \<and>
   map_of (originalToTempMap ((initial_session secret_store)\<lparr>isCleaningUp := True\<rparr>))
     (fileName secret_doc) = None \<and>
   step clear_tool (Open secret_doc) ((initial_session secret_store)\<lparr>isCleaningUp := True\<rparr>)
     = (initial_session secret_store)\<lparr>isCleaningUp := True\<rparr> \<and>
   tempToOriginalMap (step clear_tool (Open secret_doc) (initial_session secret_store))
     = [(''/w/secret_clear.yaml'', ''/w/secret.yaml'')]"
proof -
  have c: "isCleaningUp ((initial_session secret_store)\<lparr>isCleaningUp := True\<rparr>)" by simp
  have e: "isSopsEncrypted (getText secret_doc)" by code_simp
  have u: "map_of (originalToTempMap ((initial_session secret_store)\<lparr>isCleaningUp := True\<rparr>))
     (fileName secret_doc) = None" by (simp add: initial_session_def)
  have r: "tempToOriginalMap (step clear_tool (Open secret_doc) (initial_session secret_store))
     = [(''/w/secret_clear.yaml'', ''/w/secret.yaml'')]" by code_simp
  from open_during_cleanup_is_ignored [OF c, of clear_tool secret_doc] e u r
  show ?thesis by simp
qed

end
